theory Spec2Isabelle
  imports Main
begin

section \<open>Values shared by the whole model\<close>

text \<open>
  The class \<^verbatim>\<open>HierarchyTable\<close> of
  \<^verbatim>\<open>src/significantChangesAlerts/significantChangesAlerts.js\<close> is embedded with
  explicit state passing.  A JavaScript exception is a value: an operation that throws
  returns \<open>Threw e st\<close>, where \<open>st\<close> is the state reached when the exception left the
  method (mutations made before the throw persist, as they do in the browser).
\<close>

datatype error = TypeError | ReferenceError

subsection \<open>Input: the hierarchy forest and the row-header index\<close>

text \<open>
  A hierarchy item \<^verbatim>\<open>{id, name, parent, children}\<close>.  \<open>hparent = None\<close> is an item
  without a \<^verbatim>\<open>parent\<close> property (\<^verbatim>\<open>undefined\<close>).
  \<^verbatim>\<open>rowheaders[id].index\<close> is a finite map from ids to row positions.
\<close>

datatype hnode =
  HNode (hid: string) (hname: string) (hparent: "string option") (hchildren: "hnode list")

type_synonym rowheaders = "string \<rightharpoonup> nat"

subsection \<open>The table: rows, cells, child nodes of a cell\<close>

text \<open>
  A cell holds a flat list of child nodes: text nodes, hyperlinks (with their text
  content) and the collapse button the controller inserts.  \<open>trClass\<close> and \<open>tdClass\<close>
  are \<^verbatim>\<open>classList\<close>s (ordered, without duplicates), \<open>trAttrs\<close> the attributes set by
  \<^verbatim>\<open>setAttribute\<close> (names with their values).
\<close>

datatype node = Text string | Anchor string | Button

record td =
  tdClass :: "string list"
  tdNodes :: "node list"

record tr =
  trClass :: "string list"
  trAttrs :: "(string \<times> string) list"
  trCells :: "td list"

definition classAdd :: "string \<Rightarrow> string list \<Rightarrow> string list" where
  "classAdd c cs = (if c \<in> set cs then cs else cs @ [c])"

definition classRemove :: "string \<Rightarrow> string list \<Rightarrow> string list" where
  "classRemove c cs = removeAll c cs"

datatype event = Collapsed nat | Uncollapsed nat | FlatView | TreeView

subsection \<open>Records and the controller state\<close>

text \<open>
  One element of \<^verbatim>\<open>this.data\<close>: the fields of the object built by \<^verbatim>\<open>setupMeta\<close>
  (\<open>hidden\<close> and \<open>collapsed\<close> are the closure variables \<^verbatim>\<open>_hidden\<close> and
  \<^verbatim>\<open>_collapsed\<close> that the getters return; \<open>collapsed = None\<close> is \<^verbatim>\<open>undefined\<close>),
  and \<open>label\<close>, the array entry \<^verbatim>\<open>row[this.column]\<close> once \<^verbatim>\<open>updateCategoryLabel\<close>
  has written it.  \<open>row\<close> is a reference to a table row: its position in \<open>rows\<close>.
  The scraped values of the other columns are not part of the model.
\<close>

record meta =
  row :: nat
  ident :: string
  flatName :: string
  name :: string
  parent :: "string option"
  level :: nat
  hasChildren :: bool
  hidden :: bool
  collapsed :: "bool option"
  label :: "string option"

text \<open>
  \<open>rows\<close> is the store of \<^verbatim>\<open>tbody>tr\<close> elements at their original positions,
  \<open>tbody\<close> the order in which the body currently shows them, \<open>sourceClass\<close> the class
  list of the table, \<open>events\<close> the events dispatched so far (oldest first).
\<close>

record state =
  rows :: "tr list"
  tbody :: "nat list"
  sourceClass :: "string list"
  events :: "event list"
  data :: "meta list"
  flat :: bool
  column :: int

datatype outcome = Done state | Threw error state

fun final :: "outcome \<Rightarrow> state" where
  "final (Done st) = st"
| "final (Threw e st) = st"

fun truthy :: "bool option \<Rightarrow> bool" where
  "truthy None = False"
| "truthy (Some b) = b"

fun findIndex :: "('a \<Rightarrow> bool) \<Rightarrow> 'a list \<Rightarrow> nat option" where
  "findIndex P [] = None"
| "findIndex P (x # xs) = (if P x then Some 0 else map_option Suc (findIndex P xs))"

definition rowClassAdd :: "nat \<Rightarrow> string \<Rightarrow> state \<Rightarrow> state" where
  "rowClassAdd r c st =
     st\<lparr>rows := (rows st)[r := (rows st ! r)\<lparr>trClass := classAdd c (trClass (rows st ! r))\<rparr>]\<rparr>"

definition rowClassRemove :: "nat \<Rightarrow> string \<Rightarrow> state \<Rightarrow> state" where
  "rowClassRemove r c st =
     st\<lparr>rows := (rows st)[r := (rows st ! r)\<lparr>trClass := classRemove c (trClass (rows st ! r))\<rparr>]\<rparr>"

fun setAttr :: "string \<Rightarrow> string \<Rightarrow> (string \<times> string) list \<Rightarrow> (string \<times> string) list" where
  "setAttr k v [] = [(k, v)]"
| "setAttr k v (a # as) = (if fst a = k then (k, v) # as else a # setAttr k v as)"

definition setAttribute :: "nat \<Rightarrow> string \<Rightarrow> string \<Rightarrow> state \<Rightarrow> state" where
  "setAttribute r k v st =
     st\<lparr>rows := (rows st)[r := (rows st ! r)\<lparr>trAttrs := setAttr k v (trAttrs (rows st ! r))\<rparr>]\<rparr>"

definition dispatchEvent :: "event \<Rightarrow> state \<Rightarrow> state" where
  "dispatchEvent e st = st\<lparr>events := events st @ [e]\<rparr>"


section \<open>Strings\<close>

text \<open>\<^verbatim>\<open>level.toString()\<close>: the decimal digits of a natural number.\<close>

fun toString :: "nat \<Rightarrow> string" where
  "toString n =
     (if n < 10 then [char_of (48 + n)]
      else toString (n div 10) @ [char_of (48 + n mod 10)])"

declare toString.simps [simp del]

text \<open>
  \<^verbatim>\<open>item.name.split('/').reverse()[0].trim()\<close>: the text after the last slash,
  without leading and trailing white space (the ASCII white space characters; strings
  are byte strings here).
\<close>

definition isSpace :: "char \<Rightarrow> bool" where
  "isSpace c = (c \<in> set [CHR '' '', CHR 0x09, CHR 0x0A, CHR 0x0B, CHR 0x0C, CHR 0x0D])"

definition trim :: "string \<Rightarrow> string" where
  "trim s = rev (dropWhile isSpace (rev (dropWhile isSpace s)))"

definition lastSegment :: "string \<Rightarrow> string" where
  "lastSegment s = rev (takeWhile (\<lambda>c. c \<noteq> CHR ''/'') (rev s))"

section \<open>The record prototype: \<^verbatim>\<open>setupMeta\<close> and its setters\<close>

text \<open>
  \<^verbatim>\<open>setupMeta({row,id,flatName,name,parent,level,hidden=true,collapsed,matches=false,
  hasChildren=false})\<close>.  The returned object has no \<^verbatim>\<open>matches\<close> property, so the
  model has none either.
\<close>

definition setupMeta ::
  "nat \<Rightarrow> string \<Rightarrow> string \<Rightarrow> string \<Rightarrow> string option \<Rightarrow> nat \<Rightarrow> bool \<Rightarrow> bool option \<Rightarrow> bool \<Rightarrow> meta"
where
  "setupMeta r i fname n p lvl hdn coll hasCh =
     \<lparr>row = r, ident = i, flatName = fname, name = n, parent = p, level = lvl,
      hasChildren = hasCh, hidden = hdn, collapsed = coll, label = None\<rparr>"

text \<open>
  \<^verbatim>\<open>set hidden(val){ _hidden=true; val ? add : remove "reportal-hidden-row" }\<close>:
  the closure variable receives the constant \<^verbatim>\<open>true\<close>, only the class follows
  \<open>val\<close>.  The first argument is the position of the record in \<open>data\<close>.
\<close>

definition set_hidden :: "nat \<Rightarrow> bool \<Rightarrow> state \<Rightarrow> state" where
  "set_hidden i val st =
     (let r = row (data st ! i);
          st1 = st\<lparr>data := (data st)[i := (data st ! i)\<lparr>hidden := True\<rparr>]\<rparr>
      in if val then rowClassAdd r ''reportal-hidden-row'' st1
         else rowClassRemove r ''reportal-hidden-row'' st1)"

text \<open>
  \<^verbatim>\<open>set collapsed(val)\<close>.  Its guard \<^verbatim>\<open>typeof val != undefined\<close> compares a string
  with \<^verbatim>\<open>undefined\<close> and is always true, so every assignment is stored.
\<close>

definition set_collapsed :: "nat \<Rightarrow> bool \<Rightarrow> state \<Rightarrow> state" where
  "set_collapsed i val st =
     (let r = row (data st ! i);
          st1 = st\<lparr>data := (data st)[i := (data st ! i)\<lparr>collapsed := Some val\<rparr>]\<rparr>
      in if val then
           dispatchEvent (Collapsed r)
             (rowClassRemove r ''reportal-uncollapsed-row''
               (rowClassAdd r ''reportal-collapsed-row'' st1))
         else
           dispatchEvent (Uncollapsed r)
             (rowClassRemove r ''reportal-collapsed-row''
               (rowClassAdd r ''reportal-uncollapsed-row'' st1)))"

section \<open>Labels of the hierarchy column\<close>

text \<open>
  \<^verbatim>\<open>children[k]\<close> and \<^verbatim>\<open>children.item(k)\<close>: absent outside the range.  (For an
  index of \<open>2 ^ 32\<close> or more \<^verbatim>\<open>item\<close> would wrap around; no row is that wide, and
  \<^verbatim>\<open>children[k]\<close> in \<^verbatim>\<open>addCollapseButton\<close> is evaluated first.)
\<close>

definition item :: "'a list \<Rightarrow> int \<Rightarrow> 'a option" where
  "item xs k = (if 0 \<le> k \<and> nat k < length xs then Some (xs ! nat k) else None)"

text \<open>\<^verbatim>\<open>cell.querySelector('a')\<close>: the text of the first hyperlink of a cell.\<close>

fun querySelectorA :: "node list \<Rightarrow> string option" where
  "querySelectorA [] = None"
| "querySelectorA (Anchor t # ns) = Some t"
| "querySelectorA (n # ns) = querySelectorA ns"

text \<open>\<^verbatim>\<open>nodeValue\<close>: the text of a text node, \<^verbatim>\<open>null\<close> (\<open>None\<close>) for an element.\<close>

fun nodeValue :: "node \<Rightarrow> string option" where
  "nodeValue (Text t) = Some t"
| "nodeValue n = None"

text \<open>
  The label as \<^verbatim>\<open>updateCategoryLabel\<close> reads it from a cell: the text of the link if
  there is one, else the value of the last child node; a cell without child nodes makes
  \<^verbatim>\<open>childNodes.item(-1)\<close> null and the read throws.
\<close>

definition readLabel :: "td \<Rightarrow> error + string option" where
  "readLabel cell =
     (case querySelectorA (tdNodes cell) of
        Some t \<Rightarrow> Inr (Some t)
      | None \<Rightarrow> (if tdNodes cell = [] then Inl TypeError
                 else Inr (nodeValue (last (tdNodes cell)))))"

text \<open>
  \<^verbatim>\<open>updateCategoryLabel(row)\<close>: after the read, the statement
  \<^verbatim>\<open>row[this.column] = label = this.flat ? row.meta.flatName : row.meta.name\<close>
  assigns the array entry and the local variable \<^verbatim>\<open>label\<close>; no node of the cell is
  written.
\<close>

definition updateCategoryLabel :: "nat \<Rightarrow> state \<Rightarrow> outcome" where
  "updateCategoryLabel i st =
     (let m = data st ! i in
      case item (trCells (rows st ! row m)) (column st) of
        None \<Rightarrow> Threw TypeError st
      | Some cell \<Rightarrow>
          (case readLabel cell of
             Inl e \<Rightarrow> Threw e st
           | Inr l \<Rightarrow>
               Done (st\<lparr>data := (data st)[i := m\<lparr>label :=
                 Some (if flat st then flatName m else name m)\<rparr>]\<rparr>)))"

fun forEach :: "(nat \<Rightarrow> state \<Rightarrow> outcome) \<Rightarrow> nat list \<Rightarrow> state \<Rightarrow> outcome" where
  "forEach f [] st = Done st"
| "forEach f (i # is) st =
     (case f i st of Done st' \<Rightarrow> forEach f is st' | Threw e st' \<Rightarrow> Threw e st')"

text \<open>
  \<^verbatim>\<open>set flat(flat)\<close>.  While \<^verbatim>\<open>this.data\<close> is still \<^verbatim>\<open>null\<close> (in the constructor)
  \<open>data\<close> is empty and the loop does nothing.
\<close>

definition set_flat :: "bool \<Rightarrow> state \<Rightarrow> outcome" where
  "set_flat f st =
     (let st1 = st\<lparr>flat := f,
                   sourceClass := (if f then classAdd ''reportal-heirarchy-flat-view''
                                   else classRemove ''reportal-heirarchy-flat-view'')
                                  (sourceClass st)\<rparr>
      in case forEach updateCategoryLabel [0..<length (data st1)] st1 of
           Threw e st2 \<Rightarrow> Threw e st2
         | Done st2 \<Rightarrow> Done (dispatchEvent (if f then FlatView else TreeView) st2))"

section \<open>Building the records: \<^verbatim>\<open>parseHierarchy\<close>\<close>

text \<open>
  \<^verbatim>\<open>clearLink(row)\<close>: the first hyperlink of the row, if any, is replaced together
  with its siblings by its text (\<^verbatim>\<open>link.parentElement.textContent = link.textContent\<close>;
  an empty text leaves the cell without child nodes).
\<close>

fun clearLinkCells :: "td list \<Rightarrow> td list" where
  "clearLinkCells [] = []"
| "clearLinkCells (cell # cells) =
     (case querySelectorA (tdNodes cell) of
        Some t \<Rightarrow> cell\<lparr>tdNodes := (if t = [] then [] else [Text t])\<rparr> # cells
      | None \<Rightarrow> cell # clearLinkCells cells)"

definition clearLinkRow :: "tr \<Rightarrow> tr" where
  "clearLinkRow r = r\<lparr>trCells := clearLinkCells (trCells r)\<rparr>"

definition clearLink :: "nat \<Rightarrow> state \<Rightarrow> state" where
  "clearLink r st = st\<lparr>rows := (rows st)[r := clearLinkRow (rows st ! r)]\<rparr>"

text \<open>
  \<^verbatim>\<open>addCollapseButton(meta)\<close>: \<^verbatim>\<open>meta.row.children[this.column]\<close> is
  \<^verbatim>\<open>undefined\<close> when the column is outside the row, and calling \<^verbatim>\<open>insertBefore\<close>
  on it throws.  The click listener it registers is \<open>click\<close> below.
\<close>

definition addCollapseButton :: "nat \<Rightarrow> state \<Rightarrow> outcome" where
  "addCollapseButton i st =
     (let r = row (data st ! i); tr = rows st ! r in
      case item (trCells tr) (column st) of
        None \<Rightarrow> Threw TypeError st
      | Some cell \<Rightarrow>
          Done (st\<lparr>rows := (rows st)[r := tr\<lparr>trCells := (trCells tr)[nat (column st) :=
            cell\<lparr>tdNodes := Button # tdNodes cell,
                 tdClass := classAdd ''reportal-hierarchical-cell'' (tdClass cell)\<rparr>]\<rparr>]\<rparr>))"

text \<open>
  The first statements of the \<^verbatim>\<open>reduce\<close> callback, for the row at position \<open>r\<close>:
  the row is tagged with the id, the level class, below level 0 the hidden class (and its
  link is cleared), the children marker class and, for a non-empty \<^verbatim>\<open>item.parent\<close>,
  the parent id.
\<close>

definition tagRow :: "nat \<Rightarrow> hnode \<Rightarrow> nat \<Rightarrow> state \<Rightarrow> state" where
  "tagRow r it lvl st =
     (let st1 = setAttribute r ''self-id'' (hid it) st;
          st2 = rowClassAdd r (''level'' @ toString lvl) st1;
          st3 = (if lvl > 0 then rowClassAdd r ''reportal-hidden-row'' st2 else st2);
          st4 = (if lvl > 0 then clearLink r st3 else st3);
          st5 = rowClassAdd r
                  (if hchildren it \<noteq> [] then ''reportal-collapsed-row''
                   else ''reportal-no-children'')
                  st4
      in case hparent it of
           None \<Rightarrow> st5
         | Some q \<Rightarrow> if q \<noteq> [] then setAttribute r ''parent'' q st5 else st5)"

text \<open>
  The call \<^verbatim>\<open>this.setupMeta({row, id, flatName: item.name, name: ..., parent, level,
  hidden: true, collapsed: item.children.length>0 ? true : undefined, hasChildren})\<close>.
\<close>

definition newMeta :: "nat \<Rightarrow> hnode \<Rightarrow> nat \<Rightarrow> meta" where
  "newMeta r it lvl =
     setupMeta r (hid it) (hname it) (trim (lastSegment (hname it))) (hparent it) lvl True
       (if hchildren it \<noteq> [] then Some True else None) (hchildren it \<noteq> [])"

text \<open>
  \<^verbatim>\<open>parseHierarchy(hierarchy, level, array)\<close>: \<open>parseHierarchy\<close> is the
  \<^verbatim>\<open>reduce\<close> over the items of one level and \<open>parseItem\<close> its callback.  The array
  under construction is \<open>data\<close>.  A missing \<^verbatim>\<open>rowheaders\<close> entry and a row position
  outside the table both throw (\<^verbatim>\<open>undefined.index\<close>, \<^verbatim>\<open>undefined.setAttribute\<close>).
  The children are visited only while \<^verbatim>\<open>level < 2\<close>.
\<close>

fun parseHierarchy :: "rowheaders \<Rightarrow> hnode list \<Rightarrow> nat \<Rightarrow> state \<Rightarrow> outcome"
  and parseItem :: "rowheaders \<Rightarrow> hnode \<Rightarrow> nat \<Rightarrow> state \<Rightarrow> outcome"
where
  "parseHierarchy rh [] lvl st = Done st"
| "parseHierarchy rh (it # its) lvl st =
     (case parseItem rh it lvl st of
        Done st' \<Rightarrow> parseHierarchy rh its lvl st'
      | Threw e st' \<Rightarrow> Threw e st')"
| "parseItem rh (HNode i n p cs) lvl st =
     (case rh i of
        None \<Rightarrow> Threw TypeError st
      | Some r \<Rightarrow>
          if length (rows st) \<le> r then Threw TypeError st
          else
            (let st1 = tagRow r (HNode i n p cs) lvl st;
                 st2 = st1\<lparr>data := data st1 @ [newMeta r (HNode i n p cs) lvl]\<rparr>;
                 k = length (data st2) - 1
             in case addCollapseButton k st2 of
                  Threw e st3 \<Rightarrow> Threw e st3
                | Done st3 \<Rightarrow>
                    (case updateCategoryLabel k st3 of
                       Threw e st4 \<Rightarrow> Threw e st4
                     | Done st4 \<Rightarrow>
                         if lvl < 2 then parseHierarchy rh cs (Suc lvl) st4 else Done st4)))"

text \<open>
  \<^verbatim>\<open>init()\<close>: the records are built and their rows appended to the body in record
  order (\<^verbatim>\<open>appendChild\<close> moves a row that is already in the body to the end).  When
  \<^verbatim>\<open>parseHierarchy\<close> throws, \<^verbatim>\<open>this.data\<close> keeps its value \<^verbatim>\<open>null\<close>.  The removal
  of a leading white-space text node of the body is not modelled.
\<close>

definition appendChild :: "nat list \<Rightarrow> nat \<Rightarrow> nat list" where
  "appendChild body r = removeAll r body @ [r]"

definition init :: "rowheaders \<Rightarrow> hnode list \<Rightarrow> state \<Rightarrow> outcome" where
  "init rh hierarchy st =
     (case parseHierarchy rh hierarchy 0 st of
        Threw e st1 \<Rightarrow> Threw e (st1\<lparr>data := []\<rparr>)
      | Done st1 \<Rightarrow> Done (st1\<lparr>tbody := foldl appendChild (tbody st1) (map row (data st1))\<rparr>))"

text \<open>
  \<^verbatim>\<open>constructor({source, hierarchy, rowheaders, hierColumn = 0, flat = false})\<close>.
  The source table is given by its class list and its body rows.  No argument is
  validated.  \<^verbatim>\<open>setupSearch\<close> only stores its arguments and no method reads them.
\<close>

record table =
  tableClass :: "string list"
  tableRows :: "tr list"

definition constructor ::
  "table \<Rightarrow> hnode list \<Rightarrow> rowheaders \<Rightarrow> int \<Rightarrow> bool \<Rightarrow> outcome"
where
  "constructor source hierarchy rh hierColumn flt =
     (let st0 = \<lparr>rows = tableRows source, tbody = [0..<length (tableRows source)],
                 sourceClass = tableClass source, events = [], data = [],
                 flat = False, column = hierColumn\<rparr>
      in case set_flat flt st0 of
           Threw e st1 \<Rightarrow> Threw e st1
         | Done st1 \<Rightarrow> init rh hierarchy st1)"


section \<open>Collapsing and expanding: \<^verbatim>\<open>toggleHiddenRows\<close>\<close>

text \<open>
  \<^verbatim>\<open>this.data.filter((row) => row.meta.parent == meta.id)\<close>: the positions of the
  records whose parent is the id of record \<open>i\<close>, in record order.
\<close>

definition childrenOf :: "state \<Rightarrow> nat \<Rightarrow> nat list" where
  "childrenOf st i =
     filter (\<lambda>j. parent (data st ! j) = Some (ident (data st ! i))) [0..<length (data st)]"

text \<open>
  The body of \<^verbatim>\<open>children.forEach((childRow) => ...)\<close> for the record \<open>i\<close> and the
  remaining children.  In the branch that collapses a child, the source continues with
  \<^verbatim>\<open>this.toggleHiddenRows(row.meta)\<close>.  The callback binds \<^verbatim>\<open>childRow\<close>;
  \<^verbatim>\<open>row\<close> is the parameter of the \<^verbatim>\<open>filter\<close> callback and of no enclosing scope,
  so evaluating the argument throws a ReferenceError before any recursive call is made,
  and the exception ends the loop.
\<close>

fun toggleChildren :: "nat \<Rightarrow> nat list \<Rightarrow> state \<Rightarrow> outcome" where
  "toggleChildren i [] st = Done st"
| "toggleChildren i (c # cs) st =
     (if truthy (collapsed (data st ! i)) then
        (let st1 = set_hidden c True st in
         if hasChildren (data st1 ! c) \<and> \<not> truthy (collapsed (data st1 ! c)) then
           Threw ReferenceError (set_collapsed c True st1)
         else toggleChildren i cs st1)
      else toggleChildren i cs (set_hidden c False st))"

definition toggleHiddenRows :: "nat \<Rightarrow> state \<Rightarrow> outcome" where
  "toggleHiddenRows i st =
     (if hasChildren (data st ! i) then toggleChildren i (childrenOf st i) st else Done st)"

text \<open>
  The click listener of the collapse button of record \<open>i\<close>:
  \<^verbatim>\<open>meta.collapsed = !meta.collapsed; this.toggleHiddenRows(meta)\<close>.
\<close>

definition click :: "nat \<Rightarrow> state \<Rightarrow> outcome" where
  "click i st = toggleHiddenRows i (set_collapsed i (\<not> truthy (collapsed (data st ! i))) st)"

section \<open>Search\<close>

text \<open>
  \<^verbatim>\<open>uncollapseParents(meta)\<close> follows the \<^verbatim>\<open>parent\<close> ids with
  \<^verbatim>\<open>this.data.find\<close>.  Nothing in the method bounds the walk, so the model counts
  calls: \<open>None\<close> is a walk that needs more than the given number of calls.  A record
  without \<^verbatim>\<open>parent\<close> (\<^verbatim>\<open>undefined.length\<close>) and a parent id that no record carries
  (\<^verbatim>\<open>undefined.meta\<close>) throw.  The method assigns \<^verbatim>\<open>collapsed\<close> only; it does not
  call \<^verbatim>\<open>toggleHiddenRows\<close>.
\<close>

fun uncollapseParents :: "nat \<Rightarrow> nat \<Rightarrow> state \<Rightarrow> outcome option" where
  "uncollapseParents 0 i st = None"
| "uncollapseParents (Suc n) i st =
     (case parent (data st ! i) of
        None \<Rightarrow> Some (Threw TypeError st)
      | Some p \<Rightarrow>
          if length p > 0 then
            (case findIndex (\<lambda>m. ident m = p) (data st) of
               None \<Rightarrow> Some (Threw TypeError st)
             | Some j \<Rightarrow>
                 (let st1 = (if truthy (collapsed (data st ! j)) then set_collapsed j False st
                             else st);
                      st2 = rowClassAdd (row (data st1 ! j)) ''matched-search'' st1
                  in uncollapseParents n j st2))
          else Some (Done st))"

text \<open>
  \<^verbatim>\<open>displayChildren(meta)\<close> marks the rows of all descendants, found by parent id.
  \<open>displayEach\<close> is its \<^verbatim>\<open>forEach\<close>.  The first argument bounds the depth of the
  recursion as in \<open>uncollapseParents\<close>.
\<close>

fun displayChildren :: "nat \<Rightarrow> nat \<Rightarrow> state \<Rightarrow> state option"
  and displayEach :: "nat \<Rightarrow> nat list \<Rightarrow> state \<Rightarrow> state option"
where
  "displayChildren 0 i st = None"
| "displayChildren (Suc n) i st =
     (if hasChildren (data st ! i) then displayEach n (childrenOf st i) st else Some st)"
| "displayEach n [] st = Some st"
| "displayEach n (c # cs) st =
     (case displayChildren n c (rowClassAdd (row (data st ! c)) ''matched-search'' st) of
        None \<Rightarrow> None
      | Some st' \<Rightarrow> displayEach n cs st')"

text \<open>
  \<^verbatim>\<open>searchRowheaders(str)\<close>.  The compiled expression \<^verbatim>\<open>new RegExp(str,'gi')\<close> is
  passed as the predicate \<open>re\<close> that tells whether \<^verbatim>\<open>String.prototype.match\<close> finds a
  match (a non-null result) in a string.  \<open>matched\<close> is the filtered array, \<open>searchEach\<close>
  the \<^verbatim>\<open>forEach\<close> over it.
\<close>

definition matched :: "(string \<Rightarrow> bool) \<Rightarrow> state \<Rightarrow> nat list" where
  "matched re st =
     filter (\<lambda>i. if flat st then re (flatName (data st ! i)) else re (name (data st ! i)))
       [0..<length (data st)]"

fun searchEach :: "nat \<Rightarrow> nat list \<Rightarrow> state \<Rightarrow> outcome option" where
  "searchEach n [] st = Some (Done st)"
| "searchEach n (i # is) st =
     (case uncollapseParents n i (rowClassAdd (row (data st ! i)) ''matched-search'' st) of
        None \<Rightarrow> None
      | Some (Threw e st1) \<Rightarrow> Some (Threw e st1)
      | Some (Done st1) \<Rightarrow>
          (case displayChildren n i st1 of
             None \<Rightarrow> None
           | Some st2 \<Rightarrow> searchEach n is st2))"

definition searchRowheaders :: "nat \<Rightarrow> (string \<Rightarrow> bool) \<Rightarrow> state \<Rightarrow> outcome option" where
  "searchRowheaders n re st = searchEach n (matched re st) st"

text \<open>
  \<^verbatim>\<open>new RegExp(str,'gi')\<close> for a pattern \<open>str\<close> without regular-expression
  metacharacters: the pattern occurs in the string, the letters A to Z compared without
  case.  In particular the empty pattern occurs in every string.  Patterns with
  metacharacters are outside this definition; \<open>searchRowheaders\<close> takes any predicate.
\<close>

definition toLower :: "char \<Rightarrow> char" where
  "toLower c =
     (if 65 \<le> (of_char c :: nat) \<and> (of_char c :: nat) \<le> 90 then char_of (of_char c + 32 :: nat)
      else c)"

fun startsWith :: "string \<Rightarrow> string \<Rightarrow> bool" where
  "startsWith s [] = True"
| "startsWith [] (p # ps) = False"
| "startsWith (c # cs) (p # ps) = (toLower c = toLower p \<and> startsWith cs ps)"

fun RegExp_gi :: "string \<Rightarrow> string \<Rightarrow> bool" where
  "RegExp_gi str [] = (str = [])"
| "RegExp_gi str (c # cs) = (startsWith (c # cs) str \<or> RegExp_gi str cs)"

section \<open>Notions used to state the properties\<close>

subsection \<open>Pre-order traversal of the forest\<close>

text \<open>
  The depth-first pre-order traversal of a forest, every node with its depth, and its
  truncation at depth 2: the nodes of depth 0, 1 and 2 in traversal order.  These follow
  the specification, not the code: the whole forest is traversed and the deep nodes are
  dropped afterwards.
\<close>

fun spec_preorder :: "nat \<Rightarrow> hnode \<Rightarrow> (hnode \<times> nat) list" where
  "spec_preorder lvl (HNode i n p cs) =
     (HNode i n p cs, lvl) # concat (map (spec_preorder (Suc lvl)) cs)"

definition spec_preorder_forest :: "nat \<Rightarrow> hnode list \<Rightarrow> (hnode \<times> nat) list" where
  "spec_preorder_forest lvl forest = concat (map (spec_preorder lvl) forest)"

definition spec_truncated :: "(hnode \<times> nat) list \<Rightarrow> (hnode \<times> nat) list" where
  "spec_truncated xs = filter (\<lambda>nl. snd nl \<le> 2) xs"

text \<open>
  A valid input: the hierarchy column is a column of the table, and every node of depth
  at most 2 has a row-header entry that points to a row of the table with that column.
  \<open>widths\<close> are the numbers of cells of the rows.
\<close>

definition resolves :: "nat list \<Rightarrow> rowheaders \<Rightarrow> int \<Rightarrow> hnode \<times> nat \<Rightarrow> bool" where
  "resolves widths rh col nl =
     (case rh (hid (fst nl)) of
        None \<Rightarrow> False
      | Some r \<Rightarrow> r < length widths \<and> nat col < widths ! r)"

definition validInput :: "table \<Rightarrow> rowheaders \<Rightarrow> int \<Rightarrow> hnode list \<Rightarrow> bool" where
  "validInput source rh col forest =
     (0 \<le> col \<and>
      list_all (resolves (map (\<lambda>r. length (trCells r)) (tableRows source)) rh col)
        (spec_truncated (spec_preorder_forest 0 forest)))"

subsection \<open>States a controller can be in\<close>

text \<open>
  The states reached from a successful construction by clicks on collapse buttons,
  assignments to \<^verbatim>\<open>flat\<close> and searches that return.  An operation that throws leaves
  the controller in the state it had reached, and later operations start from there.
\<close>

inductive reachable :: "state \<Rightarrow> bool" where
  built: "constructor source hierarchy rh hierColumn flt = Done st \<Longrightarrow> reachable st"
| clicked: "reachable st \<Longrightarrow> i < length (data st) \<Longrightarrow> reachable (final (click i st))"
| flat_set: "reachable st \<Longrightarrow> reachable (final (set_flat f st))"
| searched: "reachable st \<Longrightarrow> searchRowheaders n re st = Some out \<Longrightarrow> reachable (final out)"

subsection \<open>Ancestors\<close>

text \<open>
  The parent of a record as \<^verbatim>\<open>uncollapseParents\<close> finds it (the first record that
  carries the parent id), and the ancestors: the parent and the ancestors of the parent.
\<close>

definition parentIndex :: "meta list \<Rightarrow> nat \<Rightarrow> nat option" where
  "parentIndex ds i =
     (case parent (ds ! i) of
        None \<Rightarrow> None
      | Some p \<Rightarrow> if p = [] then None else findIndex (\<lambda>m. ident m = p) ds)"

inductive ancestorOf :: "meta list \<Rightarrow> nat \<Rightarrow> nat \<Rightarrow> bool" for ds :: "meta list" where
  direct: "parentIndex ds i = Some j \<Longrightarrow> ancestorOf ds i j"
| further: "parentIndex ds i = Some j \<Longrightarrow> ancestorOf ds j a \<Longrightarrow> ancestorOf ds i a"

text \<open>
  Records whose parent ids lead upwards: every record has a \<^verbatim>\<open>parent\<close> string, empty
  or the id of a record of a smaller level, and every record refers to a row of the table.
\<close>

definition wellFormed :: "state \<Rightarrow> bool" where
  "wellFormed st =
     list_all
       (\<lambda>i. row (data st ! i) < length (rows st) \<and>
            (case parent (data st ! i) of
               None \<Rightarrow> False
             | Some p \<Rightarrow>
                 p = [] \<or>
                 (case findIndex (\<lambda>m. ident m = p) (data st) of
                    None \<Rightarrow> False
                  | Some j \<Rightarrow> level (data st ! j) < level (data st ! i))))
       [0..<length (data st)]"

subsection \<open>The label a header cell shows\<close>

text \<open>
  The label of the header cell of record \<open>i\<close>, read the way \<^verbatim>\<open>updateCategoryLabel\<close>
  reads it: the text of the link, else the text of the last text node.
\<close>

definition shownLabel :: "state \<Rightarrow> nat \<Rightarrow> string option" where
  "shownLabel st i =
     (case item (trCells (rows st ! row (data st ! i))) (column st) of
        None \<Rightarrow> None
      | Some cell \<Rightarrow> (case readLabel cell of Inl e \<Rightarrow> None | Inr l \<Rightarrow> l))"

subsection \<open>Example tables\<close>

text \<open>
  A table of three rows with the label in column 0 (a plain text in the first row, a
  drill-down link in the others) and a number in column 1.
\<close>

definition demoRow :: "node \<Rightarrow> string \<Rightarrow> tr" where
  "demoRow lbl v =
     \<lparr>trClass = [], trAttrs = [],
      trCells = [\<lparr>tdClass = [], tdNodes = [lbl]\<rparr>, \<lparr>tdClass = [], tdNodes = [Text v]\<rparr>]\<rparr>"

definition demoTable :: table where
  "demoTable =
     \<lparr>tableClass = [''reportal-hierarchy-table''],
      tableRows = [demoRow (Text ''Region'') ''12'',
                   demoRow (Anchor ''Region/North'') ''7'',
                   demoRow (Anchor ''Region/North/Oslo'') ''5'']\<rparr>"

definition demoIndex :: rowheaders where
  "demoIndex = [''A'' \<mapsto> 0, ''B'' \<mapsto> 1, ''C'' \<mapsto> 2]"

text \<open>The forest of the specification's example: two items without \<^verbatim>\<open>parent\<close>.\<close>

definition specForest :: "hnode list" where
  "specForest = [HNode ''A'' ''Region'' None [HNode ''B'' ''Region/North'' None []]]"

text \<open>A three-level forest whose items carry their parent ids.\<close>

definition demoForest :: "hnode list" where
  "demoForest =
     [HNode ''A'' ''Region'' (Some [])
        [HNode ''B'' ''Region/North'' (Some ''A'')
           [HNode ''C'' ''Region/North/Oslo'' (Some ''B'') []]]]"

text \<open>The controller built for the three-level forest, in tree view.\<close>

definition demoState :: state where
  "demoState = final (constructor demoTable demoForest demoIndex 0 False)"

text \<open>The three-level forest with one more level below its last item.\<close>

definition deepForest :: "hnode list" where
  "deepForest =
     [HNode ''A'' ''Region'' (Some [])
        [HNode ''B'' ''Region/North'' (Some ''A'')
           [HNode ''C'' ''Region/North/Oslo'' (Some ''B'')
              [HNode ''D'' ''Region/North/Oslo/Centre'' (Some ''C'') []]]]]"

text \<open>The row-header index of the specification's example.\<close>

definition specIndex :: rowheaders where
  "specIndex = [''A'' \<mapsto> 0, ''B'' \<mapsto> 1]"

text \<open>The example controller after its first two rows have been expanded.\<close>

definition expandedState :: state where
  "expandedState = final (click 1 (final (click 0 demoState)))"

text \<open>
  No child of record \<open>i\<close> is an expanded record with children: the condition under
  which collapsing \<open>i\<close> forces no child to collapse.
\<close>

definition noExpandedChild :: "state \<Rightarrow> nat \<Rightarrow> bool" where
  "noExpandedChild st i =
     list_all (\<lambda>c. truthy (collapsed (data st ! c)) \<or> \<not> hasChildren (data st ! c))
       (childrenOf st i)"

text \<open>
  The rows of the children of record \<open>i\<close> show what \<open>i\<close> says: each carries the hidden
  marker class exactly if \<open>i\<close> is collapsed.  A click on \<open>i\<close> that returns leaves the rows so.
\<close>

definition childrenFollow :: "state \<Rightarrow> nat \<Rightarrow> bool" where
  "childrenFollow st i =
     list_all
       (\<lambda>c. (''reportal-hidden-row'' \<in> set (trClass (rows st ! row (data st ! c)))) =
            truthy (collapsed (data st ! i)))
       (childrenOf st i)"

text \<open>
  A forest whose items name their place: the \<^verbatim>\<open>parent\<close> of a root is the empty
  string, the \<^verbatim>\<open>parent\<close> of a child is the id of the item that holds it, and the ids
  are not empty; the ids of the items of depth at most 2 are distinct.
\<close>

fun consistent :: "string \<Rightarrow> hnode \<Rightarrow> bool" where
  "consistent p (HNode i n q cs) = (q = Some p \<and> i \<noteq> [] \<and> list_all (consistent i) cs)"

definition consistentForest :: "hnode list \<Rightarrow> bool" where
  "consistentForest forest =
     (list_all (consistent []) forest \<and>
      distinct (map (\<lambda>nl. hid (fst nl)) (spec_truncated (spec_preorder_forest 0 forest))))"

text \<open>
  Records that a search can walk: well-formed, with distinct non-empty ids and levels
  bounded by \<open>M\<close>.
\<close>

definition searchable :: "nat \<Rightarrow> state \<Rightarrow> bool" where
  "searchable M st =
     (wellFormed st \<and> distinct (map ident (data st)) \<and> [] \<notin> set (map ident (data st)) \<and>
      list_all (\<lambda>m. level m \<le> M) (data st))"


definition emptySearchState :: state where
  "emptySearchState = final (the (searchRowheaders 3 (RegExp_gi []) demoState))"

subsection \<open>Auxiliary notions of the proofs\<close>

text \<open>The numbers of cells of the rows of the table.\<close>

definition widths :: "state \<Rightarrow> nat list" where
  "widths st = map (\<lambda>r. length (trCells r)) (rows st)"

text \<open>
  The record that \<^verbatim>\<open>parseHierarchy\<close> leaves for a node at a level, once its label
  has been set for the view mode \<open>flt\<close>.
\<close>

definition recordOf :: "rowheaders \<Rightarrow> bool \<Rightarrow> hnode \<times> nat \<Rightarrow> meta" where
  "recordOf rh flt nl =
     (newMeta (the (rh (hid (fst nl)))) (fst nl) (snd nl))
       \<lparr>label := Some (if flt then hname (fst nl) else trim (lastSegment (hname (fst nl))))\<rparr>"

text \<open>
  What a step of a search may change: the \<open>collapsed\<close> flags can only be cleared, the
  collapsed marker class can only be removed, the uncollapsed marker class, the highlight
  class and the events can only be added; ids, parents, rows, levels, names, the
  \<open>hidden\<close> flags and the hidden marker class stay.
\<close>

definition searchStep :: "state \<Rightarrow> state \<Rightarrow> bool" where
  "searchStep st st' =
     (length (data st') = length (data st) \<and> length (rows st') = length (rows st) \<and>
      flat st' = flat st \<and> set (events st) \<subseteq> set (events st') \<and>
      (\<forall>a. ident (data st' ! a) = ident (data st ! a) \<and>
           parent (data st' ! a) = parent (data st ! a) \<and>
           row (data st' ! a) = row (data st ! a) \<and>
           level (data st' ! a) = level (data st ! a) \<and>
           hasChildren (data st' ! a) = hasChildren (data st ! a) \<and>
           flatName (data st' ! a) = flatName (data st ! a) \<and>
           name (data st' ! a) = name (data st ! a) \<and>
           hidden (data st' ! a) = hidden (data st ! a) \<and>
           (truthy (collapsed (data st' ! a)) \<longrightarrow> truthy (collapsed (data st ! a)))) \<and>
      (\<forall>r. (''reportal-hidden-row'' \<in> set (trClass (rows st' ! r))) =
             (''reportal-hidden-row'' \<in> set (trClass (rows st ! r))) \<and>
           (''matched-search'' \<in> set (trClass (rows st ! r)) \<longrightarrow>
            ''matched-search'' \<in> set (trClass (rows st' ! r))) \<and>
           (''reportal-uncollapsed-row'' \<in> set (trClass (rows st ! r)) \<longrightarrow>
            ''reportal-uncollapsed-row'' \<in> set (trClass (rows st' ! r))) \<and>
           (''reportal-collapsed-row'' \<in> set (trClass (rows st' ! r)) \<longrightarrow>
            ''reportal-collapsed-row'' \<in> set (trClass (rows st ! r)))))"

section \<open>What the elementary operations change\<close>

lemma nth_upd_proj:
  assumes "\<And>x. g (f x) = g x"
  shows "g (xs[r := f (xs ! r)] ! k) = g (xs ! k)"
  using assms by (cases "r < length xs"; cases "r = k"; simp add: list_update_beyond)

lemma map_upd_proj:
  assumes "\<And>x. g (f x) = g x"
  shows "map g (xs[r := f (xs ! r)]) = map g xs"
  by (rule nth_equalityI) (simp_all add: nth_upd_proj [of g f, OF assms])

lemma rowClassAdd_frame [simp]:
  "data (rowClassAdd r c st) = data st"
  "flat (rowClassAdd r c st) = flat st"
  "column (rowClassAdd r c st) = column st"
  "events (rowClassAdd r c st) = events st"
  "tbody (rowClassAdd r c st) = tbody st"
  "sourceClass (rowClassAdd r c st) = sourceClass st"
  "length (rows (rowClassAdd r c st)) = length (rows st)"
  "trCells (rows (rowClassAdd r c st) ! k) = trCells (rows st ! k)"
  "trAttrs (rows (rowClassAdd r c st) ! k) = trAttrs (rows st ! k)"
  by (simp_all add: rowClassAdd_def nth_upd_proj)

lemma rowClassRemove_frame [simp]:
  "data (rowClassRemove r c st) = data st"
  "flat (rowClassRemove r c st) = flat st"
  "column (rowClassRemove r c st) = column st"
  "events (rowClassRemove r c st) = events st"
  "tbody (rowClassRemove r c st) = tbody st"
  "sourceClass (rowClassRemove r c st) = sourceClass st"
  "length (rows (rowClassRemove r c st)) = length (rows st)"
  "trCells (rows (rowClassRemove r c st) ! k) = trCells (rows st ! k)"
  "trAttrs (rows (rowClassRemove r c st) ! k) = trAttrs (rows st ! k)"
  by (simp_all add: rowClassRemove_def nth_upd_proj)

lemma setAttribute_frame [simp]:
  "data (setAttribute r a v st) = data st"
  "flat (setAttribute r a v st) = flat st"
  "column (setAttribute r a v st) = column st"
  "events (setAttribute r a v st) = events st"
  "tbody (setAttribute r a v st) = tbody st"
  "sourceClass (setAttribute r a v st) = sourceClass st"
  "length (rows (setAttribute r a v st)) = length (rows st)"
  "trCells (rows (setAttribute r a v st) ! k) = trCells (rows st ! k)"
  "trClass (rows (setAttribute r a v st) ! k) = trClass (rows st ! k)"
  by (simp_all add: setAttribute_def nth_upd_proj)

lemma dispatchEvent_frame [simp]:
  "data (dispatchEvent e st) = data st"
  "flat (dispatchEvent e st) = flat st"
  "column (dispatchEvent e st) = column st"
  "rows (dispatchEvent e st) = rows st"
  "tbody (dispatchEvent e st) = tbody st"
  "sourceClass (dispatchEvent e st) = sourceClass st"
  by (simp_all add: dispatchEvent_def)

lemma class_rowClassAdd:
  "c' \<in> set (trClass (rows (rowClassAdd r c st) ! k)) \<longleftrightarrow>
     (k = r \<and> r < length (rows st) \<and> c' = c) \<or> c' \<in> set (trClass (rows st ! k))"
  by (cases "r < length (rows st)"; cases "r = k") (auto simp: rowClassAdd_def classAdd_def list_update_beyond)

lemma class_rowClassRemove:
  "c' \<in> set (trClass (rows (rowClassRemove r c st) ! k)) \<longleftrightarrow>
     c' \<in> set (trClass (rows st ! k)) \<and> \<not> (k = r \<and> r < length (rows st) \<and> c' = c)"
  by (cases "r < length (rows st)"; cases "r = k") (auto simp: rowClassRemove_def classRemove_def list_update_beyond)

lemma set_hidden_frame [simp]:
  "flat (set_hidden i v st) = flat st"
  "column (set_hidden i v st) = column st"
  "events (set_hidden i v st) = events st"
  "tbody (set_hidden i v st) = tbody st"
  "sourceClass (set_hidden i v st) = sourceClass st"
  "length (rows (set_hidden i v st)) = length (rows st)"
  "length (data (set_hidden i v st)) = length (data st)"
  "trCells (rows (set_hidden i v st) ! k) = trCells (rows st ! k)"
  by (simp_all add: set_hidden_def Let_def)

lemma set_hidden_data:
  "data (set_hidden i v st) = (data st)[i := (data st ! i)\<lparr>hidden := True\<rparr>]"
  by (simp add: set_hidden_def Let_def)

lemma set_hidden_fields [simp]:
  "map row (data (set_hidden i v st)) = map row (data st)"
  "map ident (data (set_hidden i v st)) = map ident (data st)"
  "map parent (data (set_hidden i v st)) = map parent (data st)"
  "map level (data (set_hidden i v st)) = map level (data st)"
  "map hasChildren (data (set_hidden i v st)) = map hasChildren (data st)"
  "map collapsed (data (set_hidden i v st)) = map collapsed (data st)"
  "map flatName (data (set_hidden i v st)) = map flatName (data st)"
  "map name (data (set_hidden i v st)) = map name (data st)"
  by (simp_all add: set_hidden_data map_upd_proj)

lemma set_collapsed_frame [simp]:
  "flat (set_collapsed i v st) = flat st"
  "column (set_collapsed i v st) = column st"
  "tbody (set_collapsed i v st) = tbody st"
  "sourceClass (set_collapsed i v st) = sourceClass st"
  "length (rows (set_collapsed i v st)) = length (rows st)"
  "length (data (set_collapsed i v st)) = length (data st)"
  "trCells (rows (set_collapsed i v st) ! k) = trCells (rows st ! k)"
  by (simp_all add: set_collapsed_def Let_def)

lemma set_collapsed_data:
  "data (set_collapsed i v st) = (data st)[i := (data st ! i)\<lparr>collapsed := Some v\<rparr>]"
  by (simp add: set_collapsed_def Let_def)

lemma set_collapsed_fields [simp]:
  "map row (data (set_collapsed i v st)) = map row (data st)"
  "map ident (data (set_collapsed i v st)) = map ident (data st)"
  "map parent (data (set_collapsed i v st)) = map parent (data st)"
  "map level (data (set_collapsed i v st)) = map level (data st)"
  "map hasChildren (data (set_collapsed i v st)) = map hasChildren (data st)"
  "map hidden (data (set_collapsed i v st)) = map hidden (data st)"
  "map flatName (data (set_collapsed i v st)) = map flatName (data st)"
  "map name (data (set_collapsed i v st)) = map name (data st)"
  by (simp_all add: set_collapsed_data map_upd_proj)

section \<open>The \<open>hidden\<close> flag never leaves \<open>True\<close>\<close>

lemma list_all_update: "list_all P xs \<Longrightarrow> P y \<Longrightarrow> list_all P (xs[i := y])"
  using set_update_subset_insert [of xs i y] by (auto simp: list_all_iff)

lemma hidden_set_hidden: "list_all hidden (data st) \<Longrightarrow> list_all hidden (data (set_hidden i v st))"
  by (simp add: set_hidden_data list_all_update)

lemma hidden_set_collapsed:
  "list_all hidden (data st) \<Longrightarrow> list_all hidden (data (set_collapsed i v st))"
  by (cases "i < length (data st)")
     (simp_all add: set_collapsed_data list_all_length list_update_beyond nth_list_update)

lemma hidden_updateCategoryLabel:
  "list_all hidden (data st) \<Longrightarrow> list_all hidden (data (final (updateCategoryLabel i st)))"
  by (cases "i < length (data st)")
     (auto simp: updateCategoryLabel_def Let_def list_all_length list_update_beyond nth_list_update
           split: option.splits sum.splits)

lemma hidden_forEach_update:
  "list_all hidden (data st) \<Longrightarrow>
   list_all hidden (data (final (forEach updateCategoryLabel is st)))"
proof (induction "is" arbitrary: st)
  case Nil
  then show ?case by simp
next
  case (Cons i "is")
  from Cons.prems have h: "list_all hidden (data (final (updateCategoryLabel i st)))"
    by (rule hidden_updateCategoryLabel)
  show ?case
  proof (cases "updateCategoryLabel i st")
    case (Done st')
    with h Cons.IH [of st'] show ?thesis by simp
  next
    case (Threw e st')
    with h show ?thesis by simp
  qed
qed

lemma hidden_set_flat:
  "list_all hidden (data st) \<Longrightarrow> list_all hidden (data (final (set_flat f st)))"
proof -
  assume a: "list_all hidden (data st)"
  let ?st1 = "st\<lparr>flat := f,
      sourceClass := (if f then classAdd ''reportal-heirarchy-flat-view''
                      else classRemove ''reportal-heirarchy-flat-view'') (sourceClass st)\<rparr>"
  from a have "list_all hidden (data ?st1)" by simp
  then have "list_all hidden (data (final (forEach updateCategoryLabel [0..<length (data ?st1)] ?st1)))"
    by (rule hidden_forEach_update)
  then show ?thesis
    by (cases "forEach updateCategoryLabel [0..<length (data ?st1)] ?st1")
       (simp_all add: set_flat_def Let_def)
qed

lemma hidden_toggleChildren:
  "list_all hidden (data st) \<Longrightarrow> list_all hidden (data (final (toggleChildren i cs st)))"
proof (induction cs arbitrary: st)
  case Nil
  then show ?case by simp
next
  case (Cons c cs)
  show ?case
    using Cons.prems Cons.IH [of "set_hidden c True st"] Cons.IH [of "set_hidden c False st"]
    by (simp add: Let_def hidden_set_hidden hidden_set_collapsed)
qed

lemma hidden_click:
  "list_all hidden (data st) \<Longrightarrow> list_all hidden (data (final (click i st)))"
  by (simp add: click_def toggleHiddenRows_def hidden_toggleChildren hidden_set_collapsed)

lemma hidden_uncollapseParents:
  "list_all hidden (data st) \<Longrightarrow> uncollapseParents n i st = Some out \<Longrightarrow>
   list_all hidden (data (final out))"
proof (induction n i st rule: uncollapseParents.induct)
  case (1 i st)
  then show ?case by simp
next
  case (2 n i st)
  then show ?case
    by (auto simp: Let_def hidden_set_collapsed split: option.splits if_splits)
qed

lemma hidden_displayChildren:
  "list_all hidden (data st) \<Longrightarrow> displayChildren n i st = Some st' \<Longrightarrow> list_all hidden (data st')"
  "list_all hidden (data st) \<Longrightarrow> displayEach n cs st = Some st' \<Longrightarrow> list_all hidden (data st')"
proof (induction n i st and n cs st arbitrary: st' and st' rule: displayChildren_displayEach.induct)
  case (1 i st)
  then show ?case by simp
next
  case (2 n i st)
  then show ?case by (auto split: if_splits)
next
  case (3 n st)
  then show ?case by simp
next
  case (4 n c cs st)
  then show ?case by (auto split: option.splits)
qed

lemma hidden_searchEach:
  "list_all hidden (data st) \<Longrightarrow> searchEach n is st = Some out \<Longrightarrow>
   list_all hidden (data (final out))"
proof (induction "is" arbitrary: st)
  case Nil
  then show ?case by auto
next
  case (Cons i "is")
  let ?st0 = "rowClassAdd (row (data st ! i)) ''matched-search'' st"
  from Cons.prems(1) have h0: "list_all hidden (data ?st0)" by simp
  show ?case
  proof (cases "uncollapseParents n i ?st0")
    case None
    with Cons.prems show ?thesis by simp
  next
    case (Some o1)
    with h0 have h1: "list_all hidden (data (final o1))" by (rule hidden_uncollapseParents)
    show ?thesis
    proof (cases o1)
      case (Threw e st1)
      with Some h1 Cons.prems show ?thesis by auto
    next
      case (Done st1)
      show ?thesis
      proof (cases "displayChildren n i st1")
        case None
        with Some Done Cons.prems show ?thesis by simp
      next
        case (Some st2)
        with Done h1 have "list_all hidden (data st2)" by (auto dest: hidden_displayChildren(1))
        with Cons.IH [of st2] Cons.prems \<open>uncollapseParents n i ?st0 = Some o1\<close> Done Some
        show ?thesis by simp
      qed
    qed
  qed
qed

lemma clearLink_frame [simp]:
  "data (clearLink r st) = data st"
  "flat (clearLink r st) = flat st"
  "column (clearLink r st) = column st"
  "events (clearLink r st) = events st"
  "tbody (clearLink r st) = tbody st"
  "sourceClass (clearLink r st) = sourceClass st"
  "length (rows (clearLink r st)) = length (rows st)"
  by (simp_all add: clearLink_def)

lemma addCollapseButton_data:
  "addCollapseButton k st = Done st' \<Longrightarrow> data st' = data st"
  by (auto simp: addCollapseButton_def Let_def split: option.splits)

lemma tagRow_frame [simp]:
  "data (tagRow r it lvl st) = data st"
  "flat (tagRow r it lvl st) = flat st"
  "column (tagRow r it lvl st) = column st"
  "events (tagRow r it lvl st) = events st"
  "tbody (tagRow r it lvl st) = tbody st"
  "sourceClass (tagRow r it lvl st) = sourceClass st"
  "length (rows (tagRow r it lvl st)) = length (rows st)"
  by (simp_all add: tagRow_def Let_def split: option.splits)

lemma parseItem_unfold:
  assumes "rh i = Some r" "r < length (rows st)"
  shows "parseItem rh (HNode i n p cs) lvl st =
     (case addCollapseButton (length (data st))
             ((tagRow r (HNode i n p cs) lvl st)\<lparr>data := data st @ [newMeta r (HNode i n p cs) lvl]\<rparr>) of
        Threw e st3 \<Rightarrow> Threw e st3
      | Done st3 \<Rightarrow>
          (case updateCategoryLabel (length (data st)) st3 of
             Threw e st4 \<Rightarrow> Threw e st4
           | Done st4 \<Rightarrow>
               if lvl < 2 then parseHierarchy rh cs (Suc lvl) st4 else Done st4))"
  using assms by (simp add: Let_def cong: outcome.case_cong)

lemma hidden_parse:
  "list_all hidden (data st) \<Longrightarrow> list_all hidden (data (final (parseHierarchy rh its lvl st)))"
  "list_all hidden (data st) \<Longrightarrow> list_all hidden (data (final (parseItem rh it lvl st)))"
proof (induction rh its lvl st and rh it lvl st rule: parseHierarchy_parseItem.induct)
  case (1 rh lvl st)
  then show ?case by simp
next
  case (2 rh it its lvl st)
  then show ?case by (cases "parseItem rh it lvl st") auto
next
  case (3 rh i n p cs lvl st)
  let ?it = "HNode i n p cs"
  show ?case
  proof (cases "rh i")
    case None
    with 3 show ?thesis by simp
  next
    case (Some r)
    show ?thesis
    proof (cases "length (rows st) \<le> r")
      case True
      with Some 3 show ?thesis by simp
    next
      case False
      define st2 where "st2 = (tagRow r ?it lvl st)\<lparr>data := data st @ [newMeta r ?it lvl]\<rparr>"
      define k where "k = length (data st)"
      have h2: "list_all hidden (data st2)"
        using "3.prems" by (simp add: st2_def newMeta_def setupMeta_def)
      have eq: "parseItem rh ?it lvl st =
        (case addCollapseButton k st2 of
           Threw e st3 \<Rightarrow> Threw e st3
         | Done st3 \<Rightarrow>
             (case updateCategoryLabel k st3 of
                Threw e st4 \<Rightarrow> Threw e st4
              | Done st4 \<Rightarrow>
                  if lvl < 2 then parseHierarchy rh cs (Suc lvl) st4 else Done st4))"
        using False parseItem_unfold [of rh i r st n p cs lvl, OF Some]
        by (simp only: st2_def k_def not_le)
      show ?thesis
      proof (cases "addCollapseButton k st2")
        case (Threw e st3)
        then have "st3 = st2" by (auto simp: addCollapseButton_def Let_def split: option.splits)
        with Threw h2 eq show ?thesis by simp
      next
        case (Done st3)
        then have h3: "list_all hidden (data st3)" using h2 by (simp add: addCollapseButton_data)
        show ?thesis
        proof (cases "updateCategoryLabel k st3")
          case (Threw e st4)
          with hidden_updateCategoryLabel [OF h3, of k] Done eq
          show ?thesis by simp
        next
          case Done4: (Done st4)
          with hidden_updateCategoryLabel [OF h3, of k]
          have h4: "list_all hidden (data st4)" by simp
          show ?thesis
          proof (cases "lvl < 2")
            case True
            let ?X = "(tagRow r ?it lvl st)\<lparr>data := data (tagRow r ?it lvl st) @ [newMeta r ?it lvl]\<rparr>"
            have a: "addCollapseButton (length (data ?X) - 1) ?X = Done st3"
              using Done by (simp add: st2_def k_def)
            have b: "updateCategoryLabel (length (data ?X) - 1) st3 = Done st4"
              using Done4 by (simp add: k_def)
            have "list_all hidden (data (final (parseHierarchy rh cs (Suc lvl) st4)))"
              by (rule "3.IH" [OF Some False refl refl refl a b True h4])
            with eq Done Done4 True show ?thesis by simp
          next
            case False
            with eq Done Done4 h4 show ?thesis by simp
          qed
        qed
      qed
    qed
  qed
qed

declare parseItem.simps [simp del]

section \<open>Row widths are preserved\<close>


lemma widths_update:
  assumes "length (trCells x) = length (trCells (rws ! r))"
  shows "map (\<lambda>r. length (trCells r)) (rws[r := x]) = map (\<lambda>r. length (trCells r)) rws"
proof (rule nth_equalityI)
  show "length (map (\<lambda>r. length (trCells r)) (rws[r := x])) =
        length (map (\<lambda>r. length (trCells r)) rws)" by simp
next
  fix i assume "i < length (map (\<lambda>r. length (trCells r)) (rws[r := x]))"
  then show "map (\<lambda>r. length (trCells r)) (rws[r := x]) ! i =
             map (\<lambda>r. length (trCells r)) rws ! i"
    using assms by (cases "i = r") simp_all
qed

lemma clearLinkCells_length: "length (clearLinkCells cells) = length cells"
  by (induction cells) (simp_all split: option.splits)

lemma clearLinkRow_width: "length (trCells (clearLinkRow x)) = length (trCells x)"
  by (simp add: clearLinkRow_def clearLinkCells_length)

lemma widths_simps [simp]:
  "widths (rowClassAdd r c st) = widths st"
  "widths (setAttribute r a v st) = widths st"
  "widths (clearLink r st) = widths st"
  "widths (st\<lparr>data := ds\<rparr>) = widths st"
  by (simp_all add: widths_def rowClassAdd_def setAttribute_def clearLink_def widths_update
        clearLinkRow_width)

lemma widths_tagRow [simp]: "widths (tagRow r it lvl st) = widths st"
  by (simp add: tagRow_def Let_def split: option.splits)

lemma widths_nth: "r < length (rows st) \<Longrightarrow> widths st ! r = length (trCells (rows st ! r))"
  by (simp add: widths_def)

lemma length_widths [simp]: "length (widths st) = length (rows st)"
  by (simp add: widths_def)

text \<open>The two steps after the push succeed when the row has the hierarchy column.\<close>

lemma button_and_label:
  assumes r: "r < length (rows st)" and col: "0 \<le> column st" "nat (column st) < widths st ! r"
    and k: "k = length (data st)" and m: "row m = r"
  shows "\<exists>st3 st4. addCollapseButton k (st\<lparr>data := data st @ [m]\<rparr>) = Done st3 \<and>
           updateCategoryLabel k st3 = Done st4 \<and>
           data st4 = data st @ [m\<lparr>label := Some (if flat st then flatName m else name m)\<rparr>] \<and>
           widths st4 = widths st \<and> column st4 = column st \<and> flat st4 = flat st"
proof -
  let ?st2 = "st\<lparr>data := data st @ [m]\<rparr>"
  let ?c = "nat (column st)"
  have w: "?c < length (trCells (rows st ! r))" using col r by (simp add: widths_nth)
  obtain cell where cell: "item (trCells (rows ?st2 ! row (data ?st2 ! k))) (column ?st2) = Some cell"
    using w col by (simp add: item_def k m)
  define st3 where "st3 = ?st2\<lparr>rows := (rows ?st2)[r := (rows ?st2 ! r)\<lparr>trCells := (trCells (rows ?st2 ! r))[?c :=
            cell\<lparr>tdNodes := Button # tdNodes cell,
                 tdClass := classAdd ''reportal-hierarchical-cell'' (tdClass cell)\<rparr>]\<rparr>]\<rparr>"
  have a: "addCollapseButton k ?st2 = Done st3"
    using cell by (simp add: addCollapseButton_def Let_def st3_def k m)
  have w3: "widths st3 = widths st"
    by (simp add: st3_def widths_def widths_update)
  have d3: "data st3 = data st @ [m]" "column st3 = column st" "flat st3 = flat st"
    by (simp_all add: st3_def)
  have c3: "item (trCells (rows st3 ! row (data st3 ! k))) (column st3) =
      Some (cell\<lparr>tdNodes := Button # tdNodes cell,
                 tdClass := classAdd ''reportal-hierarchical-cell'' (tdClass cell)\<rparr>)"
    using w r col by (simp add: st3_def item_def k m)
  have rl: "\<exists>l. readLabel (cell\<lparr>tdNodes := Button # tdNodes cell,
                 tdClass := classAdd ''reportal-hierarchical-cell'' (tdClass cell)\<rparr>) = Inr l"
    by (simp add: readLabel_def split: option.splits)
  then obtain l where l: "readLabel (cell\<lparr>tdNodes := Button # tdNodes cell,
                 tdClass := classAdd ''reportal-hierarchical-cell'' (tdClass cell)\<rparr>) = Inr l" ..
  define st4 where "st4 = st3\<lparr>data := (data st3)[k := (data st3 ! k)\<lparr>label :=
                 Some (if flat st3 then flatName (data st3 ! k) else name (data st3 ! k))\<rparr>]\<rparr>"
  have b: "updateCategoryLabel k st3 = Done st4"
    using c3 l by (simp add: updateCategoryLabel_def Let_def st4_def)
  have "data st4 = data st @ [m\<lparr>label := Some (if flat st then flatName m else name m)\<rparr>]"
    by (simp add: st4_def d3 k)
  moreover have "widths st4 = widths st \<and> column st4 = column st \<and> flat st4 = flat st"
    using w3 by (simp add: st4_def d3 widths_def)
  ultimately show ?thesis using a b by blast
qed

section \<open>Traversal lemmas\<close>

lemma spec_preorder_level:
  "nl \<in> set (spec_preorder lvl it) \<Longrightarrow> lvl \<le> snd nl"
proof (induction lvl it arbitrary: nl rule: spec_preorder.induct)
  case (1 lvl i n p cs)
  from "1.prems" consider "nl = (HNode i n p cs, lvl)"
    | c where "c \<in> set cs" "nl \<in> set (spec_preorder (Suc lvl) c)"
    by auto
  then show ?case
  proof cases
    case 1
    then show ?thesis by simp
  next
    case 2
    from "1.IH" [OF 2] show ?thesis by simp
  qed
qed

declare spec_preorder.simps [simp del]

lemma spec_forest_Cons:
  "spec_preorder_forest lvl (it # its) = spec_preorder lvl it @ spec_preorder_forest lvl its"
  by (simp add: spec_preorder_forest_def)

lemma spec_truncated_append:
  "spec_truncated (xs @ ys) = spec_truncated xs @ spec_truncated ys"
  by (simp add: spec_truncated_def)

lemma spec_truncated_deep:
  "2 < lvl \<Longrightarrow> spec_truncated (spec_preorder_forest lvl cs) = []"
  by (auto simp: spec_truncated_def spec_preorder_forest_def filter_empty_conv
           dest!: spec_preorder_level)

lemma spec_truncated_node:
  "lvl \<le> 2 \<Longrightarrow>
   spec_truncated (spec_preorder lvl (HNode i n p cs)) =
     (HNode i n p cs, lvl) #
       (if lvl < 2 then spec_truncated (spec_preorder_forest (Suc lvl) cs) else [])"
  using spec_truncated_deep [of "Suc lvl" cs]
  by (auto simp: spec_truncated_def spec_preorder_forest_def spec_preorder.simps)

lemma parse_preorder:
  "lvl \<le> 2 \<Longrightarrow> 0 \<le> column st \<Longrightarrow>
   list_all (resolves (widths st) rh (column st)) (spec_truncated (spec_preorder_forest lvl its)) \<Longrightarrow>
   \<exists>st'. parseHierarchy rh its lvl st = Done st' \<and>
         data st' = data st @ map (recordOf rh (flat st)) (spec_truncated (spec_preorder_forest lvl its)) \<and>
         widths st' = widths st \<and> column st' = column st \<and> flat st' = flat st"
  "lvl \<le> 2 \<Longrightarrow> 0 \<le> column st \<Longrightarrow>
   list_all (resolves (widths st) rh (column st)) (spec_truncated (spec_preorder lvl it)) \<Longrightarrow>
   \<exists>st'. parseItem rh it lvl st = Done st' \<and>
         data st' = data st @ map (recordOf rh (flat st)) (spec_truncated (spec_preorder lvl it)) \<and>
         widths st' = widths st \<and> column st' = column st \<and> flat st' = flat st"
proof (induction rh its lvl st and rh it lvl st rule: parseHierarchy_parseItem.induct)
  case (1 rh lvl st)
  then show ?case by (simp add: spec_preorder_forest_def spec_truncated_def)
next
  case (2 rh it its lvl st)
  from "2.prems" have ok1: "list_all (resolves (widths st) rh (column st)) (spec_truncated (spec_preorder lvl it))"
    and ok2: "list_all (resolves (widths st) rh (column st)) (spec_truncated (spec_preorder_forest lvl its))"
    by (simp_all add: spec_forest_Cons spec_truncated_append)
  from "2.IH"(1) [OF "2.prems"(1,2) ok1] obtain st1 where
    p1: "parseItem rh it lvl st = Done st1" and
    d1: "data st1 = data st @ map (recordOf rh (flat st)) (spec_truncated (spec_preorder lvl it))" and
    f1: "widths st1 = widths st" "column st1 = column st" "flat st1 = flat st"
    by blast
  from "2.IH"(2) [OF p1 "2.prems"(1)] "2.prems"(2) ok2 f1 obtain st2 where
    p2: "parseHierarchy rh its lvl st1 = Done st2" and
    d2: "data st2 = data st1 @ map (recordOf rh (flat st1)) (spec_truncated (spec_preorder_forest lvl its))" and
    f2: "widths st2 = widths st1" "column st2 = column st1" "flat st2 = flat st1"
    by auto
  show ?case
    using p1 p2 d1 d2 f1 f2 by (simp add: spec_forest_Cons spec_truncated_append)
next
  case (3 rh i n p cs lvl st)
  let ?it = "HNode i n p cs"
  from "3.prems" have res: "resolves (widths st) rh (column st) (?it, lvl)"
    by (simp add: spec_truncated_node)
  then obtain r where r: "rh i = Some r" "r < length (rows st)" "nat (column st) < widths st ! r"
    by (auto simp: resolves_def split: option.splits)
  let ?t = "tagRow r ?it lvl st"
  let ?m = "newMeta r ?it lvl"
  have "\<exists>st3 st4. addCollapseButton (length (data ?t)) (?t\<lparr>data := data ?t @ [?m]\<rparr>) = Done st3 \<and>
           updateCategoryLabel (length (data ?t)) st3 = Done st4 \<and>
           data st4 = data ?t @ [?m\<lparr>label := Some (if flat ?t then flatName ?m else name ?m)\<rparr>] \<and>
           widths st4 = widths ?t \<and> column st4 = column ?t \<and> flat st4 = flat ?t"
    using r "3.prems"(2)
    by (intro button_and_label) (simp_all add: newMeta_def setupMeta_def)
  then obtain st3 st4 where
    a: "addCollapseButton (length (data st)) (?t\<lparr>data := data st @ [?m]\<rparr>) = Done st3" and
    b: "updateCategoryLabel (length (data st)) st3 = Done st4" and
    d4: "data st4 = data st @ [recordOf rh (flat st) (?it, lvl)]" and
    f4: "widths st4 = widths st" "column st4 = column st" "flat st4 = flat st"
    using r(1) by (auto simp: recordOf_def newMeta_def setupMeta_def)
  have eq: "parseItem rh ?it lvl st =
      (if lvl < 2 then parseHierarchy rh cs (Suc lvl) st4 else Done st4)"
    using a b by (simp add: parseItem_unfold [of rh i r st n p cs lvl, OF r(1,2)])
  show ?case
  proof (cases "lvl < 2")
    case False
    with eq d4 f4 "3.prems"(1) show ?thesis by (simp add: spec_truncated_node)
  next
    case True
    let ?X = "?t\<lparr>data := data ?t @ [?m]\<rparr>"
    have a': "addCollapseButton (length (data ?X) - 1) ?X = Done st3" using a by simp
    have b': "updateCategoryLabel (length (data ?X) - 1) st3 = Done st4" using b by simp
    have nle: "\<not> length (rows st) \<le> r" using r(2) by simp
    have okc: "list_all (resolves (widths st4) rh (column st4)) (spec_truncated (spec_preorder_forest (Suc lvl) cs))"
      using "3.prems" True f4 by (simp add: spec_truncated_node)
    from "3.IH" [OF r(1) nle refl refl refl a' b' True _ _ okc] True "3.prems"(2) f4
    obtain st' where
      p: "parseHierarchy rh cs (Suc lvl) st4 = Done st'" and
      d: "data st' = data st4 @ map (recordOf rh (flat st4)) (spec_truncated (spec_preorder_forest (Suc lvl) cs))" and
      f: "widths st' = widths st4" "column st' = column st4" "flat st' = flat st4"
      by auto
    show ?thesis
      using eq True p d f d4 f4 "3.prems"(1) by (simp add: spec_truncated_node)
  qed
qed

section \<open>The records are the truncated pre-order traversal\<close>

lemma set_flat_empty:
  "data st = [] \<Longrightarrow>
   \<exists>st1. set_flat f st = Done st1 \<and> data st1 = [] \<and> rows st1 = rows st \<and>
         column st1 = column st \<and> flat st1 = f"
  by (simp add: set_flat_def Let_def)

text \<open>The records of a construction from a valid input.\<close>

lemma constructor_records:
  assumes "validInput source rh col forest"
  shows "\<exists>st. constructor source forest rh col flt = Done st \<and>
           data st = map (recordOf rh flt) (spec_truncated (spec_preorder_forest 0 forest)) \<and>
           length (rows st) = length (tableRows source) \<and> flat st = flt"
proof -
  let ?st0 = "\<lparr>rows = tableRows source, tbody = [0..<length (tableRows source)],
                 sourceClass = tableClass source, events = [], data = [],
                 flat = False, column = col\<rparr>"
  obtain st1 where s1: "set_flat flt ?st0 = Done st1" "data st1 = []" "rows st1 = rows ?st0"
    "column st1 = col" "flat st1 = flt"
    using set_flat_empty [of ?st0 flt] by auto
  have w1: "widths st1 = map (\<lambda>r. length (trCells r)) (tableRows source)"
    using s1 by (simp add: widths_def)
  from assms have c: "0 \<le> column st1"
    and ok: "list_all (resolves (widths st1) rh (column st1)) (spec_truncated (spec_preorder_forest 0 forest))"
    using s1 w1 by (simp_all add: validInput_def)
  from parse_preorder(1) [OF _ c ok] obtain st2 where
    p: "parseHierarchy rh forest 0 st1 = Done st2" and
    d: "data st2 = data st1 @ map (recordOf rh (flat st1)) (spec_truncated (spec_preorder_forest 0 forest))" and
    w: "widths st2 = widths st1" and f: "flat st2 = flat st1"
    by auto
  have "length (rows st2) = length (widths st2)" by simp
  also have "\<dots> = length (rows st1)" by (simp only: w length_widths)
  finally have "length (rows st2) = length (tableRows source)" using s1(3) by simp
  moreover have "constructor source forest rh col flt =
          Done (st2\<lparr>tbody := foldl appendChild (tbody st2) (map row (data st2))\<rparr>)"
    using s1(1) p by (simp add: constructor_def init_def Let_def)
  ultimately show ?thesis using d s1(2,5) f by simp
qed

text \<open>
  Claim C1.  For every valid input (a hierarchy forest and a row-index map that lead
  every node of depth at most 2 to a row of the table that has the hierarchy column) the
  construction returns, and the records it builds are, in this order, the nodes of the
  depth-first pre-order traversal of the forest truncated at depth 2, each with its id,
  path, parent id, level and children flag.  Nodes of levels 0, 1 and 2 get a record;
  the children of level-2 nodes get none.
\<close>

theorem parseHierarchy_preorder_truncated:
  assumes "validInput source rh col forest"
  shows "\<exists>st. constructor source forest rh col flt = Done st \<and>
           map (\<lambda>m. (ident m, flatName m, parent m, level m, hasChildren m)) (data st) =
           map (\<lambda>nl. (hid (fst nl), hname (fst nl), hparent (fst nl), snd nl, hchildren (fst nl) \<noteq> []))
             (spec_truncated (spec_preorder_forest 0 forest))"
proof -
  from constructor_records [OF assms, of flt] obtain st where
    "constructor source forest rh col flt = Done st" and
    "data st = map (recordOf rh flt) (spec_truncated (spec_preorder_forest 0 forest))"
    by blast
  then show ?thesis by (auto simp: recordOf_def newMeta_def setupMeta_def)
qed

theorem parseHierarchy_preorder_truncated_witness:
  "validInput demoTable demoIndex 0 deepForest \<and>
   (\<exists>st. constructor demoTable deepForest demoIndex 0 False = Done st \<and>
      map (\<lambda>m. (ident m, flatName m, parent m, level m, hasChildren m)) (data st) =
        [(''A'', ''Region'', Some [], 0, True),
         (''B'', ''Region/North'', Some ''A'', 1, True),
         (''C'', ''Region/North/Oslo'', Some ''B'', 2, True)])"
proof -
  have v: "validInput demoTable demoIndex 0 deepForest"
    by (simp add: validInput_def demoTable_def demoIndex_def deepForest_def demoRow_def
        spec_preorder_forest_def spec_preorder.simps spec_truncated_def resolves_def)
  have t: "map (\<lambda>nl. (hid (fst nl), hname (fst nl), hparent (fst nl), snd nl, hchildren (fst nl) \<noteq> []))
             (spec_truncated (spec_preorder_forest 0 deepForest)) =
        [(''A'', ''Region'', Some [], 0, True),
         (''B'', ''Region/North'', Some ''A'', 1, True),
         (''C'', ''Region/North/Oslo'', Some ''B'', 2, True)]"
    by (simp add: deepForest_def spec_preorder_forest_def spec_preorder.simps spec_truncated_def)
  from parseHierarchy_preorder_truncated [OF v, of False] t v show ?thesis by simp
qed

section \<open>The example controller\<close>

lemma demo_built: "constructor demoTable demoForest demoIndex 0 False = Done demoState"
  unfolding demoState_def by code_simp


section \<open>No reachable state has a record that is not hidden\<close>

lemma hidden_constructor:
  assumes "constructor source hierarchy rh hierColumn flt = Done st"
  shows "list_all hidden (data st)"
proof -
  let ?st0 = "\<lparr>rows = tableRows source, tbody = [0..<length (tableRows source)],
                 sourceClass = tableClass source, events = [], data = [],
                 flat = False, column = hierColumn\<rparr>"
  obtain st1 where s1: "set_flat flt ?st0 = Done st1" "data st1 = []"
    using set_flat_empty [of ?st0 flt] by auto
  from s1(2) have "list_all hidden (data st1)" by simp
  then have h: "list_all hidden (data (final (parseHierarchy rh hierarchy 0 st1)))"
    by (rule hidden_parse(1))
  show ?thesis
  proof (cases "parseHierarchy rh hierarchy 0 st1")
    case (Done st2)
    with assms s1(1) h show ?thesis
      by (auto simp: constructor_def init_def Let_def)
  next
    case (Threw e st2)
    with assms s1(1) show ?thesis
      by (simp add: constructor_def init_def Let_def)
  qed
qed

lemma hidden_reachable: "reachable st \<Longrightarrow> list_all hidden (data st)"
proof (induction rule: reachable.induct)
  case (built source hierarchy rh hierColumn flt st)
  then show ?case by (rule hidden_constructor)
next
  case (clicked st i)
  then show ?case by (simp add: hidden_click)
next
  case (flat_set st f)
  then show ?case by (simp add: hidden_set_flat)
next
  case (searched st n re out)
  then show ?case by (auto simp: searchRowheaders_def intro: hidden_searchEach)
qed

text \<open>
  Claim C10.  In every state a controller can reach, the \<open>hidden\<close> getter of every
  record returns true: the flag starts as true, and the setter stores true whatever
  value is assigned, so the getters also return true after any further assignment.
\<close>

theorem hidden_getter_always_true:
  assumes "reachable st"
  shows "list_all hidden (data st) \<and> (\<forall>i v. list_all hidden (data (set_hidden i v st)))"
  using assms by (simp add: hidden_reachable hidden_set_hidden)

theorem hidden_getter_always_true_witness:
  "reachable (final (click 0 demoState)) \<and>
   list_all hidden (data (final (click 0 demoState))) \<and>
   list_all hidden (data (set_hidden 1 False (final (click 0 demoState))))"
proof -
  have len: "0 < length (data demoState)" by code_simp
  have r: "reachable (final (click 0 demoState))"
    by (rule reachable.clicked [OF reachable.built [OF demo_built] len])
  from hidden_getter_always_true [OF r] r show ?thesis by simp
qed

section \<open>Where the code departs from the specification\<close>

text \<open>
  Claim C2 (the code departs from it).  After the root row A of the example has been
  expanded, no record has a collapsed ancestor: A has no parent and the only ancestor of
  B is A, whose \<open>collapsed\<close> is false.  The \<open>hidden\<close> getters of A and B return true all
  the same, where the claim requires false.
\<close>

theorem root_and_child_hidden_when_expanded:
  "click 0 demoState = Done (final (click 0 demoState)) \<and>
   map ident (data (final (click 0 demoState))) = [''A'', ''B'', ''C''] \<and>
   map parent (data (final (click 0 demoState))) = [Some [], Some ''A'', Some ''B''] \<and>
   map collapsed (data (final (click 0 demoState))) = [Some False, Some True, None] \<and>
   map hidden (data (final (click 0 demoState))) = [True, True, True]"
  by code_simp

text \<open>
  Claim C3 (the code departs from it).  With A and B expanded, collapsing A hides B and
  forces B to \<open>collapsed = true\<close>, and then throws a ReferenceError instead of
  propagating into the children of B: the row of C keeps showing (it never receives the
  hidden class).
\<close>

theorem collapse_cascade_throws:
  "map collapsed (data expandedState) = [Some False, Some False, None] \<and>
   click 0 expandedState = Threw ReferenceError (final (click 0 expandedState)) \<and>
   map collapsed (data (final (click 0 expandedState))) = [Some True, Some True, None] \<and>
   map (\<lambda>r. ''reportal-hidden-row'' \<in> set (trClass r)) (rows (final (click 0 expandedState))) =
     [False, True, False]"
  by code_simp

text \<open>
  Claim C4 (the code departs from it).  For the forest and index of the example, the
  records built are A (level 0, collapsed, with children) and B (level 1, without
  children), but the \<open>hidden\<close> flag of the root record A is true, not false.
\<close>

theorem spec_example_records:
  "constructor demoTable specForest specIndex 0 False =
     Done (final (constructor demoTable specForest specIndex 0 False)) \<and>
   map (\<lambda>m. (ident m, level m, hidden m, collapsed m, hasChildren m))
     (data (final (constructor demoTable specForest specIndex 0 False))) =
     [(''A'', 0, True, Some True, True), (''B'', 1, True, None, False)]"
  by code_simp

text \<open>
  Claim C5 (the code departs from it).  In tree view the header cell of B still shows the
  path \<^verbatim>\<open>Region/North\<close> while the record's \<open>name\<close> is \<^verbatim>\<open>North\<close>: the label is
  written to the array entry only.  Assigning \<^verbatim>\<open>flat\<close> changes no row of the table,
  so the cell shows the same text after switching to flat view and back.
\<close>

theorem header_cell_keeps_flat_label:
  "flat demoState = False \<and>
   name (data demoState ! 1) = ''North'' \<and>
   label (data demoState ! 1) = Some ''North'' \<and>
   shownLabel demoState 1 = Some ''Region/North'' \<and>
   set_flat True demoState = Done (final (set_flat True demoState)) \<and>
   rows (final (set_flat True demoState)) = rows demoState \<and>
   set_flat False (final (set_flat True demoState)) =
     Done (final (set_flat False (final (set_flat True demoState)))) \<and>
   shownLabel (final (set_flat False (final (set_flat True demoState)))) 1 = Some ''Region/North''"
  by code_simp


section \<open>Toggling twice\<close>

lemma set_hidden_noop:
  assumes "list_all hidden (data st)"
  shows "data (set_hidden c v st) = data st"
proof (cases "c < length (data st)")
  case True
  with assms have "hidden (data st ! c)" by (simp add: list_all_length)
  then have "(data st ! c)\<lparr>hidden := True\<rparr> = data st ! c" by simp
  then show ?thesis by (simp add: set_hidden_data)
next
  case False
  then show ?thesis by (simp add: set_hidden_data list_update_beyond)
qed

lemma class_set_hidden:
  "(c' \<in> set (trClass (rows (set_hidden c v st) ! r))) =
     (if c' = ''reportal-hidden-row'' \<and> r = row (data st ! c) \<and> r < length (rows st) then v
      else c' \<in> set (trClass (rows st ! r)))"
  by (cases v) (auto simp: set_hidden_def Let_def class_rowClassAdd class_rowClassRemove)

lemma class_set_collapsed:
  "c' = ''reportal-hidden-row'' \<or> r \<noteq> row (data st ! i) \<Longrightarrow>
   (c' \<in> set (trClass (rows (set_collapsed i v st) ! r))) = (c' \<in> set (trClass (rows st ! r)))"
  by (cases v) (auto simp: set_collapsed_def Let_def class_rowClassAdd class_rowClassRemove)

text \<open>
  The loop over the children when no child has to be collapsed: it returns, the records
  stay, and the rows of the children get or lose the hidden marker class.
\<close>

lemma toggleChildren_quiet:
  assumes "list_all hidden (data st)"
    and "truthy (collapsed (data st ! i)) \<Longrightarrow>
         list_all (\<lambda>c. truthy (collapsed (data st ! c)) \<or> \<not> hasChildren (data st ! c)) cs"
  shows "\<exists>st'. toggleChildren i cs st = Done st' \<and> data st' = data st \<and>
           length (rows st') = length (rows st) \<and>
           (\<forall>r c'. (c' \<in> set (trClass (rows st' ! r))) =
              (if c' = ''reportal-hidden-row'' \<and> r < length (rows st) \<and>
                  r \<in> (\<lambda>c. row (data st ! c)) ` set cs
               then truthy (collapsed (data st ! i))
               else c' \<in> set (trClass (rows st ! r))))"
  using assms
proof (induction cs arbitrary: st)
  case Nil
  then show ?case by simp
next
  case (Cons c cs)
  define b where "b = truthy (collapsed (data st ! i))"
  define st1 where "st1 = set_hidden c b st"
  have d1: "data st1 = data st" unfolding st1_def using Cons.prems(1) by (rule set_hidden_noop)
  have l1: "length (rows st1) = length (rows st)" by (simp add: st1_def)
  have h1: "list_all hidden (data st1)" using Cons.prems(1) by (simp only: d1)
  have q1: "truthy (collapsed (data st1 ! i)) \<Longrightarrow>
         list_all (\<lambda>c. truthy (collapsed (data st1 ! c)) \<or> \<not> hasChildren (data st1 ! c)) cs"
    using Cons.prems(2) unfolding d1 by simp
  from Cons.IH [OF h1 q1] obtain st' where
    t: "toggleChildren i cs st1 = Done st'" and d': "data st' = data st1" and
    l': "length (rows st') = length (rows st1)" and
    k': "\<forall>r c'. (c' \<in> set (trClass (rows st' ! r))) =
              (if c' = ''reportal-hidden-row'' \<and> r < length (rows st1) \<and>
                  r \<in> (\<lambda>c. row (data st1 ! c)) ` set cs
               then truthy (collapsed (data st1 ! i))
               else c' \<in> set (trClass (rows st1 ! r)))"
    by blast
  have step: "toggleChildren i (c # cs) st = toggleChildren i cs st1"
  proof (cases b)
    case True
    then have tb: "truthy (collapsed (data st ! i))" by (simp add: b_def)
    from Cons.prems(2) [OF tb]
    have "truthy (collapsed (data st ! c)) \<or> \<not> hasChildren (data st ! c)" by simp
    then have nq: "\<not> (hasChildren (data st1 ! c) \<and> \<not> truthy (collapsed (data st1 ! c)))"
      unfolding d1 by blast
    have "toggleChildren i (c # cs) st =
        (if hasChildren (data st1 ! c) \<and> \<not> truthy (collapsed (data st1 ! c))
         then Threw ReferenceError (set_collapsed c True st1)
         else toggleChildren i cs st1)"
      using tb True by (simp add: st1_def Let_def)
    with nq show ?thesis by (simp only: if_False)
  next
    case False
    then have "\<not> truthy (collapsed (data st ! i))" by (simp add: b_def)
    with False show ?thesis by (simp add: st1_def)
  qed
  have c1: "\<And>r c'. (c' \<in> set (trClass (rows st1 ! r))) =
     (if c' = ''reportal-hidden-row'' \<and> r = row (data st ! c) \<and> r < length (rows st) then b
      else c' \<in> set (trClass (rows st ! r)))"
    unfolding st1_def by (rule class_set_hidden)
  have "\<forall>r c'. (c' \<in> set (trClass (rows st' ! r))) =
              (if c' = ''reportal-hidden-row'' \<and> r < length (rows st) \<and>
                  r \<in> (\<lambda>c. row (data st ! c)) ` set (c # cs)
               then truthy (collapsed (data st ! i))
               else c' \<in> set (trClass (rows st ! r)))"
  proof (intro allI)
    fix r c'
    from k' have "(c' \<in> set (trClass (rows st' ! r))) =
              (if c' = ''reportal-hidden-row'' \<and> r < length (rows st) \<and>
                  r \<in> (\<lambda>c. row (data st ! c)) ` set cs
               then b else c' \<in> set (trClass (rows st1 ! r)))"
      unfolding d1 l1 b_def by blast
    then show "(c' \<in> set (trClass (rows st' ! r))) =
              (if c' = ''reportal-hidden-row'' \<and> r < length (rows st) \<and>
                  r \<in> (\<lambda>c. row (data st ! c)) ` set (c # cs)
               then truthy (collapsed (data st ! i))
               else c' \<in> set (trClass (rows st ! r)))"
      unfolding c1 b_def by auto
  qed
  moreover have "data st' = data st" using d' d1 by simp
  moreover have "length (rows st') = length (rows st)" using l' l1 by simp
  ultimately show ?case using step t by simp
qed

lemma childrenOf_set_collapsed [simp]:
  "childrenOf (set_collapsed i v st) k = childrenOf st k"
proof -
  have "\<And>j. parent (data (set_collapsed i v st) ! j) = parent (data st ! j)"
       "\<And>j. ident (data (set_collapsed i v st) ! j) = ident (data st ! j)"
    by (simp_all add: set_collapsed_data nth_upd_proj)
  then show ?thesis by (simp add: childrenOf_def)
qed

lemma childrenOf_data: "data st' = data st \<Longrightarrow> childrenOf st' k = childrenOf st k"
  by (simp add: childrenOf_def)

text \<open>One click on a record with children, none of which has to be collapsed.\<close>

lemma click_quiet:
  assumes h: "list_all hidden (data st)" and i: "i < length (data st)"
    and hc: "hasChildren (data st ! i)"
    and q: "list_all (\<lambda>c. c = i \<or> truthy (collapsed (data st ! c)) \<or> \<not> hasChildren (data st ! c))
              (childrenOf st i)"
  shows "\<exists>st1. click i st = Done st1 \<and>
           data st1 = (data st)[i := (data st ! i)\<lparr>collapsed := Some (\<not> truthy (collapsed (data st ! i)))\<rparr>] \<and>
           length (rows st1) = length (rows st) \<and>
           (\<forall>r. (''reportal-hidden-row'' \<in> set (trClass (rows st1 ! r))) =
              (if r < length (rows st) \<and> r \<in> (\<lambda>c. row (data st ! c)) ` set (childrenOf st i)
               then \<not> truthy (collapsed (data st ! i))
               else ''reportal-hidden-row'' \<in> set (trClass (rows st ! r)))) \<and>
           (\<forall>r c'. c' \<noteq> ''reportal-hidden-row'' \<longrightarrow> r \<noteq> row (data st ! i) \<longrightarrow>
              (c' \<in> set (trClass (rows st1 ! r))) = (c' \<in> set (trClass (rows st ! r))))"
proof -
  define b where "b = truthy (collapsed (data st ! i))"
  define st0 where "st0 = set_collapsed i (\<not> b) st"
  have d0: "data st0 = (data st)[i := (data st ! i)\<lparr>collapsed := Some (\<not> b)\<rparr>]"
    unfolding st0_def by (rule set_collapsed_data)
  have l0: "length (rows st0) = length (rows st)" by (simp add: st0_def)
  have h0: "list_all hidden (data st0)" unfolding st0_def using h by (rule hidden_set_collapsed)
  have q0: "truthy (collapsed (data st0 ! i)) \<Longrightarrow>
      list_all (\<lambda>c. truthy (collapsed (data st0 ! c)) \<or> \<not> hasChildren (data st0 ! c)) (childrenOf st i)"
    using q i unfolding d0 list_all_iff
    by (auto simp: nth_list_update)
  have b0: "truthy (collapsed (data st0 ! i)) = (\<not> b)" using i by (simp add: d0)
  have r0: "\<And>c. row (data st0 ! c) = row (data st ! c)" by (simp add: d0 nth_upd_proj)
  have hc0: "hasChildren (data st0 ! i)" using hc i by (simp add: d0)
  have cl0: "\<And>r c'. c' = ''reportal-hidden-row'' \<or> r \<noteq> row (data st ! i) \<Longrightarrow>
     (c' \<in> set (trClass (rows st0 ! r))) = (c' \<in> set (trClass (rows st ! r)))"
    unfolding st0_def by (rule class_set_collapsed)
  from toggleChildren_quiet [of st0 i "childrenOf st i", OF h0 q0]
  obtain st1 where t: "toggleChildren i (childrenOf st i) st0 = Done st1" and d1: "data st1 = data st0"
    and l: "length (rows st1) = length (rows st0)"
    and k: "\<forall>r c'. (c' \<in> set (trClass (rows st1 ! r))) =
              (if c' = ''reportal-hidden-row'' \<and> r < length (rows st0) \<and>
                  r \<in> (\<lambda>c. row (data st0 ! c)) ` set (childrenOf st i)
               then truthy (collapsed (data st0 ! i))
               else c' \<in> set (trClass (rows st0 ! r)))"
    by blast
  have c: "click i st = Done st1"
    using t hc0 unfolding click_def toggleHiddenRows_def st0_def b_def by simp
  have k1: "\<forall>r. (''reportal-hidden-row'' \<in> set (trClass (rows st1 ! r))) =
              (if r < length (rows st) \<and> r \<in> (\<lambda>c. row (data st ! c)) ` set (childrenOf st i)
               then \<not> b else ''reportal-hidden-row'' \<in> set (trClass (rows st ! r)))"
    using k unfolding b0 r0 l0 by (simp add: cl0)
  have k2: "\<forall>r c'. c' \<noteq> ''reportal-hidden-row'' \<longrightarrow> r \<noteq> row (data st ! i) \<longrightarrow>
              (c' \<in> set (trClass (rows st1 ! r))) = (c' \<in> set (trClass (rows st ! r)))"
    using k by (simp add: cl0)
  from c d1 d0 l l0 k1 k2 show ?thesis unfolding b_def by simp
qed

text \<open>
  Claim C6, as amended.  In a reachable state, for a record that has children and none of
  whose children is an expanded record with children, two clicks in succession on its
  collapse button both return and leave every other record (so every descendant) exactly
  as it was, \<open>hidden\<close> and \<open>collapsed\<close> included; the record itself is collapsed
  afterwards iff it was before.  On the rows of the table, the two clicks change no
  class of a row other than the record's own except the hidden marker class; and if,
  before, the rows of its children carried the hidden marker class exactly when the
  record was collapsed, the hidden marker class of every row is as it was before.
\<close>

theorem double_toggle_restores:
  assumes "reachable st" and "i < length (data st)" and "hasChildren (data st ! i)"
    and "noExpandedChild st i"
  shows "\<exists>st1 st2. click i st = Done st1 \<and> click i st1 = Done st2 \<and>
           (\<forall>j. j \<noteq> i \<longrightarrow> data st2 ! j = data st ! j) \<and>
           map hidden (data st2) = map hidden (data st) \<and>
           truthy (collapsed (data st2 ! i)) = truthy (collapsed (data st ! i)) \<and>
           (\<forall>r c. c \<noteq> ''reportal-hidden-row'' \<longrightarrow> r \<noteq> row (data st ! i) \<longrightarrow>
              (c \<in> set (trClass (rows st2 ! r))) = (c \<in> set (trClass (rows st ! r)))) \<and>
           (childrenFollow st i \<longrightarrow>
              map (\<lambda>r. ''reportal-hidden-row'' \<in> set (trClass r)) (rows st2) =
              map (\<lambda>r. ''reportal-hidden-row'' \<in> set (trClass r)) (rows st))"
proof -
  let ?b = "truthy (collapsed (data st ! i))"
  let ?R = "(\<lambda>c. row (data st ! c)) ` set (childrenOf st i)"
  have h: "list_all hidden (data st)" using assms(1) by (rule hidden_reachable)
  have q: "list_all (\<lambda>c. c = i \<or> truthy (collapsed (data st ! c)) \<or> \<not> hasChildren (data st ! c))
              (childrenOf st i)"
    using assms(4) by (auto simp: noExpandedChild_def list_all_iff)
  from click_quiet [OF h assms(2,3) q] obtain st1 where
    c1: "click i st = Done st1" and
    d1: "data st1 = (data st)[i := (data st ! i)\<lparr>collapsed := Some (\<not> ?b)\<rparr>]" and
    l1: "length (rows st1) = length (rows st)" and
    k1: "\<forall>r. (''reportal-hidden-row'' \<in> set (trClass (rows st1 ! r))) =
              (if r < length (rows st) \<and> r \<in> ?R then \<not> ?b
               else ''reportal-hidden-row'' \<in> set (trClass (rows st ! r)))" and
    o1: "\<forall>r c'. c' \<noteq> ''reportal-hidden-row'' \<longrightarrow> r \<noteq> row (data st ! i) \<longrightarrow>
              (c' \<in> set (trClass (rows st1 ! r))) = (c' \<in> set (trClass (rows st ! r)))"
    by blast
  have h1: "list_all hidden (data st1)"
    using hidden_click [OF h, of i] c1 by simp
  have i1: "i < length (data st1)" using assms(2) d1 by simp
  have hc1: "hasChildren (data st1 ! i)" using assms(2,3) by (simp add: d1)
  have b1: "truthy (collapsed (data st1 ! i)) = (\<not> ?b)" using assms(2) by (simp add: d1)
  have r1: "\<And>c. row (data st1 ! c) = row (data st ! c)" by (simp add: d1 nth_upd_proj)
  have ch: "childrenOf st1 i = childrenOf st i"
    using childrenOf_set_collapsed [of i "\<not> ?b" st i] childrenOf_data [of st1 "set_collapsed i (\<not> ?b) st" i] d1
    by (simp add: set_collapsed_data)
  have q1: "list_all (\<lambda>c. c = i \<or> truthy (collapsed (data st1 ! c)) \<or> \<not> hasChildren (data st1 ! c))
              (childrenOf st1 i)"
    using q unfolding ch d1 list_all_iff by (auto simp: nth_list_update)
  from click_quiet [OF h1 i1 hc1 q1] obtain st2 where
    c2: "click i st1 = Done st2" and
    d2: "data st2 = (data st1)[i := (data st1 ! i)\<lparr>collapsed := Some (\<not> truthy (collapsed (data st1 ! i)))\<rparr>]" and
    l2: "length (rows st2) = length (rows st)" and
    k2: "\<forall>r. (''reportal-hidden-row'' \<in> set (trClass (rows st2 ! r))) =
              (if r < length (rows st) \<and> r \<in> ?R then ?b
               else ''reportal-hidden-row'' \<in> set (trClass (rows st1 ! r)))" and
    o2: "\<forall>r c'. c' \<noteq> ''reportal-hidden-row'' \<longrightarrow> r \<noteq> row (data st ! i) \<longrightarrow>
              (c' \<in> set (trClass (rows st2 ! r))) = (c' \<in> set (trClass (rows st1 ! r)))"
    by (auto simp: l1 b1 r1 ch)
  have d2': "data st2 = (data st)[i := (data st ! i)\<lparr>collapsed := Some ?b\<rparr>]"
    using assms(2) by (simp add: d2 d1)
  have "\<forall>j. j \<noteq> i \<longrightarrow> data st2 ! j = data st ! j" by (simp add: d2')
  moreover have "map hidden (data st2) = map hidden (data st)"
    by (simp add: d2' map_upd_proj)
  moreover have "truthy (collapsed (data st2 ! i)) = ?b"
    using assms(2) by (simp add: d2')
  moreover have "\<forall>r c. c \<noteq> ''reportal-hidden-row'' \<longrightarrow> r \<noteq> row (data st ! i) \<longrightarrow>
              (c \<in> set (trClass (rows st2 ! r))) = (c \<in> set (trClass (rows st ! r)))"
    using o1 o2 by simp
  moreover have "map (\<lambda>r. ''reportal-hidden-row'' \<in> set (trClass r)) (rows st2) =
              map (\<lambda>r. ''reportal-hidden-row'' \<in> set (trClass r)) (rows st)"
    if f: "childrenFollow st i"
  proof (rule nth_equalityI)
    show "length (map (\<lambda>r. ''reportal-hidden-row'' \<in> set (trClass r)) (rows st2)) =
          length (map (\<lambda>r. ''reportal-hidden-row'' \<in> set (trClass r)) (rows st))"
      by (simp add: l2)
  next
    fix r assume "r < length (map (\<lambda>r. ''reportal-hidden-row'' \<in> set (trClass r)) (rows st2))"
    then have r: "r < length (rows st)" by (simp add: l2)
    have "(''reportal-hidden-row'' \<in> set (trClass (rows st2 ! r))) =
          (''reportal-hidden-row'' \<in> set (trClass (rows st ! r)))"
    proof (cases "r \<in> ?R")
      case True
      then obtain c where "c \<in> set (childrenOf st i)" "r = row (data st ! c)" by auto
      with f have "(''reportal-hidden-row'' \<in> set (trClass (rows st ! r))) = ?b"
        by (simp add: childrenFollow_def list_all_iff)
      with True r k2 show ?thesis by simp
    next
      case False
      with k1 k2 show ?thesis by simp
    qed
    with r show "map (\<lambda>r. ''reportal-hidden-row'' \<in> set (trClass r)) (rows st2) ! r =
                 map (\<lambda>r. ''reportal-hidden-row'' \<in> set (trClass r)) (rows st) ! r"
      by (simp add: l2)
  qed
  ultimately show ?thesis using c1 c2 by blast
qed

theorem double_toggle_restores_witness:
  "reachable demoState \<and> 0 < length (data demoState) \<and> hasChildren (data demoState ! 0) \<and>
   noExpandedChild demoState 0 \<and> childrenFollow demoState 0 \<and>
   (\<exists>st1 st2. click 0 demoState = Done st1 \<and> click 0 st1 = Done st2 \<and>
      (\<forall>j. j \<noteq> 0 \<longrightarrow> data st2 ! j = data demoState ! j) \<and>
      map hidden (data st2) = map hidden (data demoState) \<and>
      truthy (collapsed (data st2 ! 0)) = truthy (collapsed (data demoState ! 0)) \<and>
      (\<forall>r c. c \<noteq> ''reportal-hidden-row'' \<longrightarrow> r \<noteq> row (data demoState ! 0) \<longrightarrow>
         (c \<in> set (trClass (rows st2 ! r))) = (c \<in> set (trClass (rows demoState ! r)))) \<and>
      map (\<lambda>r. ''reportal-hidden-row'' \<in> set (trClass r)) (rows st2) =
      map (\<lambda>r. ''reportal-hidden-row'' \<in> set (trClass r)) (rows demoState))"
proof -
  have r: "reachable demoState" by (rule reachable.built [OF demo_built])
  have l: "0 < length (data demoState)" by code_simp
  have c: "hasChildren (data demoState ! 0)" by code_simp
  have q: "noExpandedChild demoState 0" by code_simp
  have f: "childrenFollow demoState 0" by code_simp
  from double_toggle_restores [OF r l c q] r l c q f show ?thesis by blast
qed

text \<open>
  Claim C6 as stated fails: with A and B expanded, two clicks on A leave B collapsed,
  where it was expanded before.
\<close>

theorem double_toggle_collapses_child:
  "hasChildren (data expandedState ! 0) \<and>
   map collapsed (data expandedState) = [Some False, Some False, None] \<and>
   map collapsed (data (final (click 0 (final (click 0 expandedState))))) =
     [Some False, Some True, None]"
  by code_simp

section \<open>What a search changes\<close>

lemma searchStep_refl [simp]: "searchStep st st"
  by (simp add: searchStep_def)

lemma searchStep_trans: "searchStep st st1 \<Longrightarrow> searchStep st1 st2 \<Longrightarrow> searchStep st st2"
proof -
  assume a: "searchStep st st1" and b: "searchStep st1 st2"
  have "set (events st) \<subseteq> set (events st2)"
    using a b unfolding searchStep_def by blast
  moreover have "\<forall>a. truthy (collapsed (data st2 ! a)) \<longrightarrow> truthy (collapsed (data st ! a))"
    using a b unfolding searchStep_def by blast
  moreover have "\<forall>r. ''matched-search'' \<in> set (trClass (rows st ! r)) \<longrightarrow>
            ''matched-search'' \<in> set (trClass (rows st2 ! r))"
    using a b unfolding searchStep_def by blast
  moreover have "\<forall>r. ''reportal-uncollapsed-row'' \<in> set (trClass (rows st ! r)) \<longrightarrow>
            ''reportal-uncollapsed-row'' \<in> set (trClass (rows st2 ! r))"
    using a b unfolding searchStep_def by blast
  moreover have "\<forall>r. ''reportal-collapsed-row'' \<in> set (trClass (rows st2 ! r)) \<longrightarrow>
            ''reportal-collapsed-row'' \<in> set (trClass (rows st ! r))"
    using a b unfolding searchStep_def by blast
  ultimately show ?thesis
    using a b unfolding searchStep_def by simp
qed

lemma searchStep_mark: "searchStep st (rowClassAdd r ''matched-search'' st)"
  by (simp add: searchStep_def class_rowClassAdd)

lemma events_set_collapsed:
  "events (set_collapsed i v st) =
     events st @ [if v then Collapsed (row (data st ! i)) else Uncollapsed (row (data st ! i))]"
  by (simp add: set_collapsed_def Let_def dispatchEvent_def)

lemma searchStep_uncollapse: "searchStep st (set_collapsed j False st)"
proof -
  have "\<And>a. truthy (collapsed (data (set_collapsed j False st) ! a)) \<longrightarrow>
            truthy (collapsed (data st ! a))"
    by (case_tac "a = j"; case_tac "j < length (data st)";
        simp add: set_collapsed_data list_update_beyond)
  moreover have "\<And>r c. c \<noteq> ''reportal-uncollapsed-row'' \<Longrightarrow> c \<noteq> ''reportal-collapsed-row'' \<Longrightarrow>
     (c \<in> set (trClass (rows (set_collapsed j False st) ! r))) = (c \<in> set (trClass (rows st ! r)))"
    by (simp add: set_collapsed_def Let_def class_rowClassAdd class_rowClassRemove)
  moreover have "\<And>r. ''reportal-uncollapsed-row'' \<in> set (trClass (rows st ! r)) \<longrightarrow>
     ''reportal-uncollapsed-row'' \<in> set (trClass (rows (set_collapsed j False st) ! r))"
    by (simp add: set_collapsed_def Let_def class_rowClassAdd class_rowClassRemove)
  moreover have "\<And>r. ''reportal-collapsed-row'' \<in> set (trClass (rows (set_collapsed j False st) ! r)) \<longrightarrow>
     ''reportal-collapsed-row'' \<in> set (trClass (rows st ! r))"
    by (simp add: set_collapsed_def Let_def class_rowClassAdd class_rowClassRemove)
  ultimately show ?thesis
    by (auto simp: searchStep_def set_collapsed_data nth_upd_proj events_set_collapsed)
qed

lemma searchStep_uncollapseParents:
  "uncollapseParents n i st = Some out \<Longrightarrow> searchStep st (final out)"
proof (induction n i st rule: uncollapseParents.induct)
  case (1 i st)
  then show ?case by simp
next
  case (2 n i st)
  show ?case
  proof (cases "parent (data st ! i)")
    case None
    with "2.prems" show ?thesis by auto
  next
    case (Some p)
    show ?thesis
    proof (cases "p = []")
      case True
      with Some "2.prems" show ?thesis by auto
    next
      case False
      show ?thesis
      proof (cases "findIndex (\<lambda>m. ident m = p) (data st)")
        case None
        with Some False "2.prems" show ?thesis by auto
      next
        case j: (Some j)
        define st1 where "st1 = (if truthy (collapsed (data st ! j)) then set_collapsed j False st else st)"
        define st2 where "st2 = rowClassAdd (row (data st1 ! j)) ''matched-search'' st1"
        have s1: "searchStep st st1" by (simp add: st1_def searchStep_uncollapse)
        have s2: "searchStep st1 st2" by (simp add: st2_def searchStep_mark)
        have rec: "uncollapseParents n j st2 = Some out"
          using "2.prems" Some False j by (simp add: st1_def st2_def Let_def)
        have "searchStep st2 (final out)"
          using "2.IH" [OF Some _ j st1_def st2_def rec] False by simp
        with s1 s2 show ?thesis by (blast intro: searchStep_trans)
      qed
    qed
  qed
qed

lemma searchStep_displayChildren:
  "displayChildren n i st = Some st' \<Longrightarrow> searchStep st st'"
  "displayEach n cs st = Some st' \<Longrightarrow> searchStep st st'"
proof (induction n i st and n cs st arbitrary: st' and st' rule: displayChildren_displayEach.induct)
  case (1 i st)
  then show ?case by simp
next
  case (2 n i st)
  then show ?case by (auto split: if_splits)
next
  case (3 n st)
  then show ?case by simp
next
  case (4 n c cs st)
  let ?st0 = "rowClassAdd (row (data st ! c)) ''matched-search'' st"
  from "4.prems" obtain st1 where a: "displayChildren n c ?st0 = Some st1"
    and b: "displayEach n cs st1 = Some st'"
    by (auto split: option.splits)
  from "4.IH"(1) [OF a] have "searchStep ?st0 st1" .
  moreover from "4.IH"(2) [OF a b] have "searchStep st1 st'" .
  moreover have "searchStep st ?st0" by (rule searchStep_mark)
  ultimately show ?case by (blast intro: searchStep_trans)
qed

lemma searchStep_searchEach:
  "searchEach n is st = Some out \<Longrightarrow> searchStep st (final out)"
proof (induction "is" arbitrary: st)
  case Nil
  then show ?case by auto
next
  case (Cons i "is")
  let ?st0 = "rowClassAdd (row (data st ! i)) ''matched-search'' st"
  have s0: "searchStep st ?st0" by (rule searchStep_mark)
  from Cons.prems obtain o1 where u: "uncollapseParents n i ?st0 = Some o1"
    by (auto split: option.splits)
  have s1: "searchStep ?st0 (final o1)" using u by (rule searchStep_uncollapseParents)
  show ?case
  proof (cases o1)
    case (Threw e st1)
    with Cons.prems u have "out = Threw e st1" by simp
    with s0 s1 Threw show ?thesis by (auto intro: searchStep_trans)
  next
    case (Done st1)
    with Cons.prems u obtain st2 where d: "displayChildren n i st1 = Some st2"
      and r: "searchEach n is st2 = Some out"
      by (auto split: option.splits)
    have "searchStep st1 st2" using d by (rule searchStep_displayChildren(1))
    moreover have "searchStep st2 (final out)" using r by (rule Cons.IH)
    ultimately show ?thesis using s0 s1 Done by (auto intro: searchStep_trans)
  qed
qed

lemma findIndex_Some: "findIndex P xs = Some j \<Longrightarrow> j < length xs \<and> P (xs ! j)"
proof (induction xs arbitrary: j)
  case Nil
  then show ?case by simp
next
  case (Cons x xs)
  then show ?case by (cases "P x") auto
qed

lemma findIndex_cong:
  "length xs = length ys \<Longrightarrow> (\<And>a. a < length xs \<Longrightarrow> P (xs ! a) = Q (ys ! a)) \<Longrightarrow>
   findIndex P xs = findIndex Q ys"
proof (induction xs ys rule: list_induct2)
  case Nil
  then show ?case by simp
next
  case (Cons x xs y ys)
  have "P x = Q y" using Cons.prems [of 0] by simp
  moreover have "findIndex P xs = findIndex Q ys"
    using Cons.prems [of "Suc a" for a] by (intro Cons.IH) simp
  ultimately show ?case by simp
qed

lemma searchStep_findIndex:
  "searchStep st st' \<Longrightarrow>
   findIndex (\<lambda>m. ident m = p) (data st') = findIndex (\<lambda>m. ident m = p) (data st)"
  by (rule findIndex_cong) (simp_all add: searchStep_def)

lemma searchStep_parentIndex:
  "searchStep st st' \<Longrightarrow> parentIndex (data st') i = parentIndex (data st) i"
  using searchStep_findIndex [of st st']
  by (simp add: parentIndex_def searchStep_def split: option.splits)

lemma ancestorOf_mono:
  assumes "ancestorOf ds i a" and "\<And>k. parentIndex ds' k = parentIndex ds k"
  shows "ancestorOf ds' i a"
  using assms(1)
proof (induction rule: ancestorOf.induct)
  case (direct i j)
  then show ?case using assms(2) by (simp add: ancestorOf.direct)
next
  case (further i j a)
  then show ?case using assms(2) by (metis ancestorOf.further)
qed

lemma searchStep_ancestorOf:
  "searchStep st st' \<Longrightarrow> ancestorOf (data st') i a = ancestorOf (data st) i a"
  using ancestorOf_mono [of "data st'" i a "data st"] ancestorOf_mono [of "data st" i a "data st'"]
    searchStep_parentIndex [of st st']
  by auto

lemma searchStep_wellFormed:
  assumes "searchStep st st'" and "wellFormed st"
  shows "wellFormed st'"
proof -
  have f: "\<And>p. findIndex (\<lambda>m. ident m = p) (data st') = findIndex (\<lambda>m. ident m = p) (data st)"
    using assms(1) by (rule searchStep_findIndex)
  show ?thesis
    using assms unfolding wellFormed_def searchStep_def list_all_iff
    by (simp add: f cong: option.case_cong)
qed

text \<open>What the walk does to the ancestors of the record it starts from.\<close>

lemma uncollapseParents_ancestors:
  assumes "uncollapseParents n i st = Some (Done st')"
    and "\<And>k. k < length (data st) \<Longrightarrow> row (data st ! k) < length (rows st)"
    and "ancestorOf (data st) i a"
  shows "\<not> truthy (collapsed (data st' ! a)) \<and>
         ''matched-search'' \<in> set (trClass (rows st' ! row (data st ! a))) \<and>
         (truthy (collapsed (data st ! a)) \<longrightarrow>
            Uncollapsed (row (data st ! a)) \<in> set (events st') \<and>
            ''reportal-uncollapsed-row'' \<in> set (trClass (rows st' ! row (data st ! a))) \<and>
            ''reportal-collapsed-row'' \<notin> set (trClass (rows st' ! row (data st ! a))))"
  using assms
proof (induction n i st arbitrary: a rule: uncollapseParents.induct)
  case (1 i st)
  then show ?case by simp
next
  case (2 n i st)
  from "2.prems"(3) obtain j where pj: "parentIndex (data st) i = Some j"
    and aj: "a = j \<or> ancestorOf (data st) j a"
    by (auto elim: ancestorOf.cases)
  from pj obtain p where p: "parent (data st ! i) = Some p" "p \<noteq> []"
    and j: "findIndex (\<lambda>m. ident m = p) (data st) = Some j"
    by (auto simp: parentIndex_def split: option.splits if_splits)
  from findIndex_Some [OF j] have jl: "j < length (data st)" by simp
  define st1 where "st1 = (if truthy (collapsed (data st ! j)) then set_collapsed j False st else st)"
  define st2 where "st2 = rowClassAdd (row (data st1 ! j)) ''matched-search'' st1"
  have s1: "searchStep st st1" by (simp add: st1_def searchStep_uncollapse)
  have s2: "searchStep st1 st2" by (simp add: st2_def searchStep_mark)
  have s12: "searchStep st st2" using s1 s2 by (rule searchStep_trans)
  have rec: "uncollapseParents n j st2 = Some (Done st')"
    using "2.prems"(1) p j by (simp add: st1_def st2_def Let_def)
  have s3: "searchStep st2 st'" using searchStep_uncollapseParents [OF rec] by simp
  have ev3: "set (events st2) \<subseteq> set (events st')" using s3 by (simp add: searchStep_def)
  have rng2: "\<And>k. k < length (data st2) \<Longrightarrow> row (data st2 ! k) < length (rows st2)"
    using "2.prems"(2) s12 by (simp add: searchStep_def)
  have rows2: "\<And>k. row (data st2 ! k) = row (data st ! k)"
    using s12 by (simp add: searchStep_def)
  have other: "\<And>k. k \<noteq> j \<Longrightarrow> collapsed (data st2 ! k) = collapsed (data st ! k)"
    by (simp add: st2_def st1_def set_collapsed_data)
  have now_c: "\<not> truthy (collapsed (data st2 ! j))"
    using jl by (simp add: st2_def st1_def set_collapsed_data)
  have now_m: "''matched-search'' \<in> set (trClass (rows st2 ! row (data st ! j)))"
  proof -
    have "row (data st1 ! j) = row (data st ! j)" using s1 by (simp add: searchStep_def)
    moreover have "row (data st ! j) < length (rows st1)"
      using "2.prems"(2) [OF jl] s1 by (simp add: searchStep_def)
    ultimately show ?thesis by (simp add: st2_def class_rowClassAdd)
  qed
  have now_e: "truthy (collapsed (data st ! j)) \<longrightarrow> Uncollapsed (row (data st ! j)) \<in> set (events st2)"
    by (simp add: st2_def st1_def events_set_collapsed)
  have now_k: "truthy (collapsed (data st ! j)) \<longrightarrow>
      ''reportal-uncollapsed-row'' \<in> set (trClass (rows st2 ! row (data st ! j))) \<and>
      ''reportal-collapsed-row'' \<notin> set (trClass (rows st2 ! row (data st ! j)))"
    using "2.prems"(2) [OF jl]
    by (simp add: st2_def st1_def set_collapsed_def Let_def class_rowClassAdd class_rowClassRemove)
  have keep: "\<And>r. (''reportal-uncollapsed-row'' \<in> set (trClass (rows st2 ! r)) \<longrightarrow>
                 ''reportal-uncollapsed-row'' \<in> set (trClass (rows st' ! r))) \<and>
                (''reportal-collapsed-row'' \<notin> set (trClass (rows st2 ! r)) \<longrightarrow>
                 ''reportal-collapsed-row'' \<notin> set (trClass (rows st' ! r)))"
    using s3 unfolding searchStep_def by blast
  have here: "\<not> truthy (collapsed (data st' ! j)) \<and>
         ''matched-search'' \<in> set (trClass (rows st' ! row (data st ! j))) \<and>
         (truthy (collapsed (data st ! j)) \<longrightarrow>
            Uncollapsed (row (data st ! j)) \<in> set (events st') \<and>
            ''reportal-uncollapsed-row'' \<in> set (trClass (rows st' ! row (data st ! j))) \<and>
            ''reportal-collapsed-row'' \<notin> set (trClass (rows st' ! row (data st ! j))))"
  proof -
    have "\<not> truthy (collapsed (data st' ! j)) \<and>
         ''matched-search'' \<in> set (trClass (rows st' ! row (data st ! j)))"
      using now_c now_m s3 unfolding searchStep_def by blast
    moreover have "truthy (collapsed (data st ! j)) \<longrightarrow>
            Uncollapsed (row (data st ! j)) \<in> set (events st')"
      using now_e ev3 by blast
    ultimately show ?thesis using now_k keep by blast
  qed
  show ?case
  proof (cases "a = j")
    case True
    with here show ?thesis by simp
  next
    case False
    with aj have "ancestorOf (data st) j a" by simp
    then have anc2: "ancestorOf (data st2) j a" using searchStep_ancestorOf [OF s12] by simp
    from "2.IH" [OF p(1) _ j st1_def st2_def rec rng2 anc2] p(2)
    have "\<not> truthy (collapsed (data st' ! a)) \<and>
         ''matched-search'' \<in> set (trClass (rows st' ! row (data st2 ! a))) \<and>
         (truthy (collapsed (data st2 ! a)) \<longrightarrow>
            Uncollapsed (row (data st2 ! a)) \<in> set (events st') \<and>
            ''reportal-uncollapsed-row'' \<in> set (trClass (rows st' ! row (data st2 ! a))) \<and>
            ''reportal-collapsed-row'' \<notin> set (trClass (rows st' ! row (data st2 ! a))))"
      by simp
    with rows2 other [OF False] show ?thesis by simp
  qed
qed

lemma uncollapseParents_returns:
  assumes "wellFormed st" and "i < length (data st)" and "level (data st ! i) < n"
  shows "\<exists>st'. uncollapseParents n i st = Some (Done st')"
  using assms
proof (induction n arbitrary: i st)
  case 0
  then show ?case by simp
next
  case (Suc n)
  from Suc.prems(1,2) have wf: "case parent (data st ! i) of None \<Rightarrow> False
      | Some p \<Rightarrow> p = [] \<or> (case findIndex (\<lambda>m. ident m = p) (data st) of None \<Rightarrow> False
                              | Some j \<Rightarrow> level (data st ! j) < level (data st ! i))"
    by (simp add: wellFormed_def list_all_iff)
  then obtain p where p: "parent (data st ! i) = Some p" by (auto split: option.splits)
  show ?case
  proof (cases "p = []")
    case True
    with p show ?thesis by simp
  next
    case False
    with wf p obtain j where j: "findIndex (\<lambda>m. ident m = p) (data st) = Some j"
      and lj: "level (data st ! j) < level (data st ! i)"
      by (auto split: option.splits)
    from findIndex_Some [OF j] have jl: "j < length (data st)" by simp
    define st1 where "st1 = (if truthy (collapsed (data st ! j)) then set_collapsed j False st else st)"
    define st2 where "st2 = rowClassAdd (row (data st1 ! j)) ''matched-search'' st1"
    have s12: "searchStep st st2"
      using searchStep_trans [of st st1 st2]
      by (simp add: st1_def st2_def searchStep_uncollapse searchStep_mark)
    have wf2: "wellFormed st2" using s12 Suc.prems(1) by (rule searchStep_wellFormed)
    have "j < length (data st2)" "level (data st2 ! j) < n"
      using s12 jl lj Suc.prems(3) by (simp_all add: searchStep_def)
    from Suc.IH [OF wf2 this] obtain st' where "uncollapseParents n j st2 = Some (Done st')" ..
    then show ?thesis using p False j by (simp add: st1_def st2_def Let_def)
  qed
qed

section \<open>Uncollapsing the ancestors of a match\<close>





section \<open>The empty query\<close>

lemma findIndex_None: "findIndex P xs = None \<Longrightarrow> x \<in> set xs \<Longrightarrow> \<not> P x"
  by (induction xs) (auto split: if_splits)

lemma findIndex_distinct:
  assumes "distinct (map ident ds)" and "i < length ds"
  shows "findIndex (\<lambda>m. ident m = ident (ds ! i)) ds = Some i"
proof (cases "findIndex (\<lambda>m. ident m = ident (ds ! i)) ds")
  case None
  from findIndex_None [OF None, of "ds ! i"] assms(2) show ?thesis by simp
next
  case (Some j)
  from findIndex_Some [OF Some] have j: "j < length ds" "ident (ds ! j) = ident (ds ! i)" by simp_all
  then have "map ident ds ! j = map ident ds ! i" using assms(2) by simp
  with assms j(1) nth_eq_iff_index_eq [of "map ident ds" j i] have "j = i" by simp
  with Some show ?thesis by simp
qed

lemma searchStep_map:
  assumes "searchStep st st'"
  shows "map ident (data st') = map ident (data st)" "map level (data st') = map level (data st)"
  using assms unfolding searchStep_def by (auto intro: nth_equalityI)

lemma searchStep_searchable:
  assumes "searchStep st st'" and "searchable M st"
  shows "searchable M st'"
proof -
  have "list_all (\<lambda>m. level m \<le> M) (data st') = list_all (\<lambda>l. l \<le> M) (map level (data st'))"
    by (simp add: list_all_iff)
  also have "\<dots> = list_all (\<lambda>m. level m \<le> M) (data st)"
    by (simp add: searchStep_map(2) [OF assms(1)] list_all_iff)
  finally show ?thesis
    using assms searchStep_wellFormed [OF assms(1)] searchStep_map(1) [OF assms(1)]
    by (simp add: searchable_def)
qed

lemma child_level:
  assumes "searchable M st" and "i < length (data st)" and "c \<in> set (childrenOf st i)"
  shows "c < length (data st) \<and> level (data st ! i) < level (data st ! c)"
proof -
  from assms(3) have c: "c < length (data st)" and pc: "parent (data st ! c) = Some (ident (data st ! i))"
    by (simp_all add: childrenOf_def)
  have "data st ! i \<in> set (data st)" using assms(2) by simp
  then have "ident (data st ! i) \<in> set (map ident (data st))" by (simp del: nth_mem)
  with assms(1) have ne: "ident (data st ! i) \<noteq> []"
    unfolding searchable_def by metis
  from assms(1) c have "case parent (data st ! c) of None \<Rightarrow> False
      | Some p \<Rightarrow> p = [] \<or> (case findIndex (\<lambda>m. ident m = p) (data st) of None \<Rightarrow> False
                              | Some j \<Rightarrow> level (data st ! j) < level (data st ! c))"
    by (simp add: searchable_def wellFormed_def list_all_iff)
  moreover have "findIndex (\<lambda>m. ident m = ident (data st ! i)) (data st) = Some i"
    using assms(1,2) by (intro findIndex_distinct) (simp_all add: searchable_def)
  ultimately show ?thesis using c pc ne by simp
qed

lemma displayChildren_returns:
  "searchable M st \<Longrightarrow> i < length (data st) \<Longrightarrow> M < n + level (data st ! i) \<Longrightarrow>
   \<exists>st'. displayChildren n i st = Some st'"
  "searchable M st \<Longrightarrow> (\<And>c. c \<in> set cs \<Longrightarrow> c < length (data st) \<and> M < n + level (data st ! c)) \<Longrightarrow>
   \<exists>st'. displayEach n cs st = Some st'"
proof (induction n i st and n cs st rule: displayChildren_displayEach.induct)
  case (1 i st)
  then have "level (data st ! i) \<le> M" by (simp add: searchable_def list_all_length)
  with 1 show ?case by simp
next
  case (2 n i st)
  show ?case
  proof (cases "hasChildren (data st ! i)")
    case False
    then show ?thesis by simp
  next
    case True
    have "\<And>c. c \<in> set (childrenOf st i) \<Longrightarrow> c < length (data st) \<and> M < n + level (data st ! c)"
      using child_level [OF "2.prems"(1,2)] "2.prems"(3) by fastforce
    from "2.IH" [OF True "2.prems"(1) this] True show ?thesis by simp
  qed
next
  case (3 n st)
  then show ?case by simp
next
  case (4 n c cs st)
  let ?st0 = "rowClassAdd (row (data st ! c)) ''matched-search'' st"
  have s0: "searchStep st ?st0" by (rule searchStep_mark)
  have ok0: "searchable M ?st0" using s0 "4.prems"(1) by (rule searchStep_searchable)
  have c: "c < length (data ?st0)" "M < n + level (data ?st0 ! c)"
    using "4.prems"(2) [of c] by simp_all
  from "4.IH"(1) [OF ok0 c] obtain st1 where d: "displayChildren n c ?st0 = Some st1" ..
  have s1: "searchStep st st1"
    using s0 searchStep_displayChildren(1) [OF d] by (rule searchStep_trans)
  have ok1: "searchable M st1" using s1 "4.prems"(1) by (rule searchStep_searchable)
  have "\<And>k. k \<in> set cs \<Longrightarrow> k < length (data st1) \<and> M < n + level (data st1 ! k)"
    using "4.prems"(2) s1 by (simp add: searchStep_def)
  from "4.IH"(2) [OF d ok1 this] d show ?case by simp
qed

lemma searchEach_returns:
  assumes "searchable M st" and "\<And>i. i \<in> set is \<Longrightarrow> i < length (data st)"
  shows "\<exists>st'. searchEach (Suc M) is st = Some (Done st')"
  using assms
proof (induction "is" arbitrary: st)
  case Nil
  then show ?case by simp
next
  case (Cons i "is")
  let ?st0 = "rowClassAdd (row (data st ! i)) ''matched-search'' st"
  have s0: "searchStep st ?st0" by (rule searchStep_mark)
  have ok0: "searchable M ?st0" using s0 Cons.prems(1) by (rule searchStep_searchable)
  have i: "i < length (data ?st0)" using Cons.prems(2) [of i] by simp
  have li: "level (data ?st0 ! i) < Suc M"
    using ok0 i by (simp add: searchable_def list_all_length less_Suc_eq_le)
  from uncollapseParents_returns [OF _ i li] ok0
  obtain st1 where u: "uncollapseParents (Suc M) i ?st0 = Some (Done st1)"
    by (auto simp: searchable_def)
  have s1: "searchStep st st1"
    using s0 searchStep_uncollapseParents [OF u] by (auto intro: searchStep_trans)
  have ok1: "searchable M st1" using s1 Cons.prems(1) by (rule searchStep_searchable)
  have "i < length (data st1)" "M < Suc M + level (data st1 ! i)"
    using i s1 by (simp_all add: searchStep_def)
  from displayChildren_returns(1) [OF ok1 this]
  obtain st2 where d: "displayChildren (Suc M) i st1 = Some st2" ..
  have s2: "searchStep st st2"
    using s1 searchStep_displayChildren(1) [OF d] by (rule searchStep_trans)
  have ok2: "searchable M st2" using s2 Cons.prems(1) by (rule searchStep_searchable)
  have "\<And>k. k \<in> set is \<Longrightarrow> k < length (data st2)"
    using Cons.prems(2) s2 by (simp add: searchStep_def)
  from Cons.IH [OF ok2 this] obtain st' where "searchEach (Suc M) is st2 = Some (Done st')" ..
  with u d show ?case by simp
qed

lemma search_returns:
  assumes "searchable M st"
  shows "\<exists>st'. searchRowheaders (Suc M) re st = Some (Done st')"
  unfolding searchRowheaders_def
  by (rule searchEach_returns [OF assms]) (simp add: matched_def)

lemma RegExp_gi_empty [simp]: "RegExp_gi [] s"
  by (cases s) simp_all

lemma matched_empty: "matched (RegExp_gi []) st = [0..<length (data st)]"
  by (simp add: matched_def)

lemma searchEach_effect:
  assumes "searchEach n is st = Some (Done st')"
    and "\<And>k. k < length (data st) \<Longrightarrow> row (data st ! k) < length (rows st)"
    and "i \<in> set is" and "i < length (data st)"
  shows "''matched-search'' \<in> set (trClass (rows st' ! row (data st ! i))) \<and>
         (\<forall>a. ancestorOf (data st) i a \<longrightarrow> \<not> truthy (collapsed (data st' ! a)))"
  using assms
proof (induction "is" arbitrary: st)
  case Nil
  then show ?case by simp
next
  case (Cons j js)
  let ?st0 = "rowClassAdd (row (data st ! j)) ''matched-search'' st"
  have s0: "searchStep st ?st0" by (rule searchStep_mark)
  from Cons.prems(1) obtain st1 st2 where u: "uncollapseParents n j ?st0 = Some (Done st1)"
    and d: "displayChildren n j st1 = Some st2" and r: "searchEach n js st2 = Some (Done st')"
    by (auto split: option.splits outcome.splits)
  have s1: "searchStep ?st0 st1" using searchStep_uncollapseParents [OF u] by simp
  have s2: "searchStep st1 st2" using d by (rule searchStep_displayChildren(1))
  have s3: "searchStep st2 st'" using searchStep_searchEach [OF r] by simp
  have s02: "searchStep st st2" using s0 s1 s2 by (blast intro: searchStep_trans)
  have s13: "searchStep st1 st'" using s2 s3 by (rule searchStep_trans)
  have s03: "searchStep ?st0 st'" using s1 s13 by (rule searchStep_trans)
  have rng0: "\<And>k. k < length (data ?st0) \<Longrightarrow> row (data ?st0 ! k) < length (rows ?st0)"
    using Cons.prems(2) by simp
  have rng2: "\<And>k. k < length (data st2) \<Longrightarrow> row (data st2 ! k) < length (rows st2)"
    using Cons.prems(2) s02 by (simp add: searchStep_def)
  show ?case
  proof (cases "i = j")
    case True
    have "row (data st ! i) < length (rows st)" using Cons.prems(2,4) by simp
    then have "''matched-search'' \<in> set (trClass (rows ?st0 ! row (data st ! i)))"
      using True by (simp add: class_rowClassAdd)
    then have m: "''matched-search'' \<in> set (trClass (rows st' ! row (data st ! i)))"
      using s03 unfolding searchStep_def by blast
    have "\<forall>a. ancestorOf (data st) i a \<longrightarrow> \<not> truthy (collapsed (data st' ! a))"
    proof (intro allI impI)
      fix a assume "ancestorOf (data st) i a"
      then have "ancestorOf (data ?st0) j a" using True by simp
      from uncollapseParents_ancestors [OF u rng0 this]
      have "\<not> truthy (collapsed (data st1 ! a))" by simp
      then show "\<not> truthy (collapsed (data st' ! a))"
        using s13 unfolding searchStep_def by blast
    qed
    with m show ?thesis by simp
  next
    case False
    with Cons.prems(3) have ijs: "i \<in> set js" by simp
    have i2: "i < length (data st2)" using Cons.prems(4) s02 by (simp add: searchStep_def)
    from Cons.IH [OF r rng2 ijs i2]
    have "''matched-search'' \<in> set (trClass (rows st' ! row (data st2 ! i))) \<and>
         (\<forall>a. ancestorOf (data st2) i a \<longrightarrow> \<not> truthy (collapsed (data st' ! a)))" .
    moreover have "row (data st2 ! i) = row (data st ! i)" using s02 by (simp add: searchStep_def)
    ultimately show ?thesis using searchStep_ancestorOf [OF s02] by simp
  qed
qed

lemma empty_query_matches_every_record:
  assumes "searchable M st"
  shows "matched (RegExp_gi []) st = [0..<length (data st)] \<and>
         (\<exists>st'. searchRowheaders (Suc M) (RegExp_gi []) st = Some (Done st') \<and>
            (\<forall>i<length (data st).
               ''matched-search'' \<in> set (trClass (rows st' ! row (data st' ! i))) \<and>
               (\<forall>a. ancestorOf (data st) i a \<longrightarrow> \<not> truthy (collapsed (data st' ! a)))))"
proof -
  from search_returns [OF assms] obtain st' where
    s: "searchRowheaders (Suc M) (RegExp_gi []) st = Some (Done st')" ..
  then have e: "searchEach (Suc M) [0..<length (data st)] st = Some (Done st')"
    by (simp add: searchRowheaders_def matched_empty)
  have rng: "\<And>k. k < length (data st) \<Longrightarrow> row (data st ! k) < length (rows st)"
    using assms by (simp add: searchable_def wellFormed_def list_all_iff)
  have rows': "\<And>a. row (data st' ! a) = row (data st ! a)"
    using searchStep_searchEach [OF e] by (simp add: searchStep_def)
  have "\<forall>i<length (data st).
               ''matched-search'' \<in> set (trClass (rows st' ! row (data st' ! i))) \<and>
               (\<forall>a. ancestorOf (data st) i a \<longrightarrow> \<not> truthy (collapsed (data st' ! a)))"
    using searchEach_effect [OF e rng] by (simp add: rows')
  with s show ?thesis by (auto simp: matched_empty)
qed

text \<open>A freshly built tree of a consistent forest can be searched.\<close>

lemma consistent_ids:
  "consistent q it \<Longrightarrow> nl \<in> set (spec_preorder lvl it) \<Longrightarrow> hid (fst nl) \<noteq> []"
proof (induction lvl it arbitrary: q nl rule: spec_preorder.induct)
  case (1 lvl i n p cs)
  from "1.prems"(2) consider "nl = (HNode i n p cs, lvl)"
    | c where "c \<in> set cs" "nl \<in> set (spec_preorder (Suc lvl) c)"
    by (auto simp: spec_preorder.simps)
  then show ?case
  proof cases
    case 1
    with "1.prems"(1) show ?thesis by simp
  next
    case 2
    from "1.prems"(1) 2(1) have "consistent i c" by (simp add: list_all_iff)
    from "1.IH" [OF 2(1) this 2(2)] show ?thesis .
  qed
qed

lemma spec_preorder_root: "(it, lvl) \<in> set (spec_preorder lvl it)"
  by (cases it) (simp add: spec_preorder.simps)

text \<open>Every entry of a traversal is its root or has its parent in the traversal, one level up.\<close>

lemma consistent_parent:
  "consistent q it \<Longrightarrow> nl \<in> set (spec_preorder lvl it) \<Longrightarrow>
   nl = (it, lvl) \<and> hparent it = Some q \<or>
   (\<exists>pl \<in> set (spec_preorder lvl it). hparent (fst nl) = Some (hid (fst pl)) \<and> snd pl < snd nl)"
proof (induction lvl it arbitrary: q nl rule: spec_preorder.induct)
  case (1 lvl i n p cs)
  let ?it = "HNode i n p cs"
  from "1.prems"(2) consider "nl = (?it, lvl)"
    | c where "c \<in> set cs" "nl \<in> set (spec_preorder (Suc lvl) c)"
    by (auto simp: spec_preorder.simps)
  then show ?case
  proof cases
    case 1
    with "1.prems"(1) show ?thesis by simp
  next
    case 2
    from "1.prems"(1) 2(1) have cc: "consistent i c" by (simp add: list_all_iff)
    have sub: "set (spec_preorder (Suc lvl) c) \<subseteq> set (spec_preorder lvl ?it)"
      using 2(1) by (auto simp: spec_preorder.simps)
    from "1.IH" [OF 2(1) cc 2(2)] show ?thesis
    proof
      assume "nl = (c, Suc lvl) \<and> hparent c = Some i"
      then have "hparent (fst nl) = Some (hid (fst (?it, lvl))) \<and> snd (?it, lvl) < snd nl"
        by simp
      moreover have "(?it, lvl) \<in> set (spec_preorder lvl ?it)" by (rule spec_preorder_root)
      ultimately show ?thesis by blast
    next
      assume "\<exists>pl \<in> set (spec_preorder (Suc lvl) c).
                hparent (fst nl) = Some (hid (fst pl)) \<and> snd pl < snd nl"
      with sub show ?thesis by blast
    qed
  qed
qed

lemma forest_parent:
  assumes "list_all (consistent []) forest" and "nl \<in> set (spec_preorder_forest 0 forest)"
  shows "hparent (fst nl) = Some [] \<or>
         (\<exists>pl \<in> set (spec_preorder_forest 0 forest).
            hparent (fst nl) = Some (hid (fst pl)) \<and> snd pl < snd nl)"
proof -
  from assms(2) obtain it where it: "it \<in> set forest" "nl \<in> set (spec_preorder 0 it)"
    by (auto simp: spec_preorder_forest_def)
  from assms(1) it(1) have "consistent [] it" by (simp add: list_all_iff)
  from consistent_parent [OF this it(2)] it(1) show ?thesis
    by (auto simp: spec_preorder_forest_def)
qed

lemma forest_ids:
  assumes "list_all (consistent []) forest" and "nl \<in> set (spec_preorder_forest 0 forest)"
  shows "hid (fst nl) \<noteq> []"
proof -
  from assms(2) obtain it where it: "it \<in> set forest" "nl \<in> set (spec_preorder 0 it)"
    by (auto simp: spec_preorder_forest_def)
  from assms(1) it(1) have "consistent [] it" by (simp add: list_all_iff)
  from consistent_ids [OF this it(2)] show ?thesis .
qed

lemma recordOf_fields [simp]:
  "ident (recordOf rh flt nl) = hid (fst nl)"
  "parent (recordOf rh flt nl) = hparent (fst nl)"
  "level (recordOf rh flt nl) = snd nl"
  "row (recordOf rh flt nl) = the (rh (hid (fst nl)))"
  by (simp_all add: recordOf_def newMeta_def setupMeta_def)

lemma built_searchable:
  assumes v: "validInput source rh col forest" and c: "consistentForest forest"
    and b: "constructor source forest rh col flt = Done st"
  shows "searchable 2 st"
proof -
  let ?P = "spec_preorder_forest 0 forest"
  let ?T = "spec_truncated ?P"
  from constructor_records [OF v, of flt] b have
    d: "data st = map (recordOf rh flt) ?T" and lr: "length (rows st) = length (tableRows source)"
    by auto
  have ids: "map ident (data st) = map (\<lambda>nl. hid (fst nl)) ?T" by (simp add: d)
  have dist: "distinct (map ident (data st))" using c by (simp add: ids consistentForest_def)
  have cons: "list_all (consistent []) forest" using c by (simp add: consistentForest_def)
  have sub: "\<And>nl. nl \<in> set ?T \<Longrightarrow> nl \<in> set ?P \<and> snd nl \<le> 2"
    by (simp add: spec_truncated_def)
  have ne: "[] \<notin> set (map ident (data st))"
  proof
    assume "[] \<in> set (map ident (data st))"
    then obtain nl where "nl \<in> set ?T" "hid (fst nl) = []" by (auto simp: ids)
    with forest_ids [OF cons, of nl] sub [of nl] show False by simp
  qed
  have lv: "list_all (\<lambda>m. level m \<le> 2) (data st)"
    using sub by (simp add: d list_all_iff)
  have wf: "wellFormed st"
    unfolding wellFormed_def list_all_iff
  proof
    fix k assume "k \<in> set [0..<length (data st)]"
    then have k: "k < length ?T" by (simp add: d)
    let ?nl = "?T ! k"
    have nlT: "?nl \<in> set ?T" using k by simp
    have dk: "data st ! k = recordOf rh flt ?nl" using k by (simp add: d)
    from v nlT have "resolves (map (\<lambda>r. length (trCells r)) (tableRows source)) rh col ?nl"
      by (simp add: validInput_def list_all_iff)
    then have rw: "row (data st ! k) < length (rows st)"
      by (auto simp: resolves_def dk lr split: option.splits)
    have par: "case parent (data st ! k) of None \<Rightarrow> False
      | Some p \<Rightarrow> p = [] \<or> (case findIndex (\<lambda>m. ident m = p) (data st) of None \<Rightarrow> False
                              | Some j \<Rightarrow> level (data st ! j) < level (data st ! k))"
    proof -
      from forest_parent [OF cons] sub [OF nlT]
      consider "hparent (fst ?nl) = Some []"
        | pl where "pl \<in> set ?P" "hparent (fst ?nl) = Some (hid (fst pl))" "snd pl < snd ?nl"
        by blast
      then show ?thesis
      proof cases
        case 1
        then show ?thesis by (simp add: dk)
      next
        case 2
        from 2(1,3) sub [OF nlT] have "pl \<in> set ?T" by (simp add: spec_truncated_def)
        then obtain j where j: "j < length ?T" "?T ! j = pl" by (auto simp: in_set_conv_nth)
        then have dj: "data st ! j = recordOf rh flt pl" by (simp add: d)
        have "findIndex (\<lambda>m. ident m = ident (data st ! j)) (data st) = Some j"
          using dist j(1) by (intro findIndex_distinct) (simp_all add: d)
        then have "findIndex (\<lambda>m. ident m = hid (fst pl)) (data st) = Some j"
          by (simp add: dj)
        then show ?thesis using 2(2,3) by (simp add: dk dj)
      qed
    qed
    from rw par show "row (data st ! k) < length (rows st) \<and>
      (case parent (data st ! k) of None \<Rightarrow> False
       | Some p \<Rightarrow> p = [] \<or> (case findIndex (\<lambda>m. ident m = p) (data st) of None \<Rightarrow> False
                              | Some j \<Rightarrow> level (data st ! j) < level (data st ! k)))"
      by simp
  qed
  from wf dist ne lv show ?thesis by (simp add: searchable_def)
qed

text \<open>
  Claim C8, as amended.  On the tree freshly built from a valid input with a consistent
  forest, the empty query matches every record: the search returns, the row of every
  record carries the highlight class afterwards, and no ancestor of any record is
  collapsed any more.
\<close>

theorem empty_query_on_fresh_tree:
  assumes "validInput source rh col forest" and "consistentForest forest"
  shows "\<exists>st. constructor source forest rh col flt = Done st \<and>
           matched (RegExp_gi []) st = [0..<length (data st)] \<and>
           (\<exists>st'. searchRowheaders 3 (RegExp_gi []) st = Some (Done st') \<and>
              (\<forall>i<length (data st).
                 ''matched-search'' \<in> set (trClass (rows st' ! row (data st' ! i))) \<and>
                 (\<forall>a. ancestorOf (data st) i a \<longrightarrow> \<not> truthy (collapsed (data st' ! a)))))"
proof -
  from constructor_records [OF assms(1), of flt] obtain st where
    b: "constructor source forest rh col flt = Done st" by blast
  have s: "searchable 2 st" using assms b by (rule built_searchable)
  from empty_query_matches_every_record [OF s] b show ?thesis
    by (simp add: eval_nat_numeral)
qed

theorem empty_query_on_fresh_tree_witness:
  "validInput demoTable demoIndex 0 demoForest \<and> consistentForest demoForest \<and>
   (\<exists>st. constructor demoTable demoForest demoIndex 0 False = Done st \<and>
           matched (RegExp_gi []) st = [0..<length (data st)] \<and>
           (\<exists>st'. searchRowheaders 3 (RegExp_gi []) st = Some (Done st') \<and>
              (\<forall>i<length (data st).
                 ''matched-search'' \<in> set (trClass (rows st' ! row (data st' ! i))) \<and>
                 (\<forall>a. ancestorOf (data st) i a \<longrightarrow> \<not> truthy (collapsed (data st' ! a))))))"
proof -
  have v: "validInput demoTable demoIndex 0 demoForest" by code_simp
  have c: "consistentForest demoForest" by code_simp
  from empty_query_on_fresh_tree [OF v c, of False] v c show ?thesis by blast
qed

text \<open>
  Claim C8 as stated fails: on the freshly built example the empty query matches all
  three records, highlights all three rows and uncollapses A and B.
\<close>

theorem empty_query_highlights_all:
  "matched (RegExp_gi []) demoState = [0, 1, 2] \<and>
   searchRowheaders 3 (RegExp_gi []) demoState = Some (Done emptySearchState) \<and>
   map (\<lambda>r. ''matched-search'' \<in> set (trClass r)) (rows demoState) = [False, False, False] \<and>
   map (\<lambda>r. ''matched-search'' \<in> set (trClass r)) (rows emptySearchState) = [True, True, True] \<and>
   map collapsed (data demoState) = [Some True, Some True, None] \<and>
   map collapsed (data emptySearchState) = [Some False, Some False, None]"
  by code_simp

section \<open>Construction with an invalid column\<close>

lemma clearLink_row [simp]:
  "trClass (rows (clearLink r st) ! k) = trClass (rows st ! k)"
  "trAttrs (rows (clearLink r st) ! k) = trAttrs (rows st ! k)"
  by (cases "r < length (rows st)"; cases "r = k";
      simp add: clearLink_def clearLinkRow_def list_update_beyond)+

lemma map_of_setAttr:
  "map_of (setAttr k v as) k' = (if k' = k then Some v else map_of as k')"
  by (induction as) auto

lemma attr_setAttribute:
  "r < length (rows st) \<Longrightarrow>
   map_of (trAttrs (rows (setAttribute r k v st) ! r)) k' =
     (if k' = k then Some v else map_of (trAttrs (rows st ! r)) k')"
  by (simp add: setAttribute_def map_of_setAttr)

lemma toString_0: "toString 0 = ''0''"
  by code_simp

lemma tagRow_level_class:
  "r < length (rows st) \<Longrightarrow> (''level'' @ toString lvl) \<in> set (trClass (rows (tagRow r it lvl st) ! r))"
  by (simp add: tagRow_def Let_def class_rowClassAdd split: option.splits)

lemma tagRow_self_id:
  "r < length (rows st) \<Longrightarrow>
   map_of (trAttrs (rows (tagRow r it lvl st) ! r)) ''self-id'' = Some (hid it)"
  by (simp add: tagRow_def Let_def attr_setAttribute split: option.splits)

text \<open>
  Claim C9, as amended.  With a negative hierarchy column and a forest whose first item
  resolves to a row of the table, construction fails with a TypeError (nothing validates
  the configuration, and there is no ConfigError), and it fails after that row has been
  tagged with the item's id and the level class.  So the table is not left untouched
  whenever that row did not carry both marks before, as in a table that no controller
  has processed yet.
\<close>

theorem constructor_negative_column:
  assumes "col < 0" and "rh (hid it) = Some r" and "r < length (tableRows source)"
  shows "\<exists>st. constructor source (it # its) rh col flt = Threw TypeError st \<and>
           ''level0'' \<in> set (trClass (rows st ! r)) \<and>
           map_of (trAttrs (rows st ! r)) ''self-id'' = Some (hid it) \<and>
           (''level0'' \<notin> set (trClass (tableRows source ! r)) \<or>
            map_of (trAttrs (tableRows source ! r)) ''self-id'' \<noteq> Some (hid it) \<longrightarrow>
              rows st \<noteq> tableRows source)"
proof -
  let ?st0 = "\<lparr>rows = tableRows source, tbody = [0..<length (tableRows source)],
                 sourceClass = tableClass source, events = [], data = [],
                 flat = False, column = col\<rparr>"
  obtain st1 where s1: "set_flat flt ?st0 = Done st1" "data st1 = []" "rows st1 = rows ?st0"
    "column st1 = col"
    using set_flat_empty [of ?st0 flt] by auto
  obtain i n p cs where it: "it = HNode i n p cs" by (cases it)
  have r1: "r < length (rows st1)" using assms(3) s1(3) by simp
  let ?st2 = "(tagRow r it 0 st1)\<lparr>data := data st1 @ [newMeta r it 0]\<rparr>"
  have "addCollapseButton (length (data st1)) ?st2 = Threw TypeError ?st2"
    using assms(1) s1(4) by (simp add: addCollapseButton_def Let_def item_def)
  then have "parseItem rh it 0 st1 = Threw TypeError ?st2"
    using parseItem_unfold [of rh i r st1 n p cs 0] assms(2) r1 by (simp add: it)
  then have "constructor source (it # its) rh col flt = Threw TypeError (?st2\<lparr>data := []\<rparr>)"
    using s1(1) by (simp add: constructor_def init_def Let_def)
  moreover have "''level0'' \<in> set (trClass (rows (?st2\<lparr>data := []\<rparr>) ! r))"
    using tagRow_level_class [OF r1, of 0 it] by (simp add: toString_0)
  moreover have "map_of (trAttrs (rows (?st2\<lparr>data := []\<rparr>) ! r)) ''self-id'' = Some (hid it)"
    using tagRow_self_id [OF r1, of it 0] by simp
  ultimately obtain st where st: "constructor source (it # its) rh col flt = Threw TypeError st"
    "''level0'' \<in> set (trClass (rows st ! r))"
    "map_of (trAttrs (rows st ! r)) ''self-id'' = Some (hid it)"
    by blast
  have "rows st \<noteq> tableRows source"
    if "''level0'' \<notin> set (trClass (tableRows source ! r)) \<or>
        map_of (trAttrs (tableRows source ! r)) ''self-id'' \<noteq> Some (hid it)"
  proof
    assume "rows st = tableRows source"
    with st(2,3) that show False by simp
  qed
  with st show ?thesis by blast
qed

theorem constructor_negative_column_witness:
  "(- 1 :: int) < 0 \<and> demoIndex (hid (hd demoForest)) = Some 0 \<and> 0 < length (tableRows demoTable) \<and>
   ''level0'' \<notin> set (trClass (tableRows demoTable ! 0)) \<and>
   (\<exists>st. constructor demoTable demoForest demoIndex (- 1) False = Threw TypeError st \<and>
      ''level0'' \<in> set (trClass (rows st ! 0)) \<and>
      map_of (trAttrs (rows st ! 0)) ''self-id'' = Some ''A'' \<and>
      rows st \<noteq> tableRows demoTable)"
proof -
  have a: "(- 1 :: int) < 0" by simp
  have b: "demoIndex (hid (hd demoForest)) = Some 0" by (simp add: demoIndex_def demoForest_def)
  have c: "0 < length (tableRows demoTable)" by (simp add: demoTable_def)
  have d: "demoForest = hd demoForest # tl demoForest" by (simp add: demoForest_def)
  have e: "hid (hd demoForest) = ''A''" by (simp add: demoForest_def)
  have f: "''level0'' \<notin> set (trClass (tableRows demoTable ! 0))"
    by (simp add: demoTable_def demoRow_def)
  from constructor_negative_column
         [where col = "- 1" and rh = demoIndex and it = "hd demoForest" and r = 0
            and source = demoTable and its = "tl demoForest" and flt = False, OF a b c]
       a b c d e f
  show ?thesis by auto
qed

text \<open>
  Claim C9 as stated fails: with column \<open>-1\<close> the example construction throws a
  TypeError and leaves the rows of the table changed.
\<close>

theorem negative_column_mutates_table:
  "constructor demoTable demoForest demoIndex (- 1) False =
     Threw TypeError (final (constructor demoTable demoForest demoIndex (- 1) False)) \<and>
   rows (final (constructor demoTable demoForest demoIndex (- 1) False)) \<noteq> tableRows demoTable"
  by code_simp

end
